theory Spec2Isabelle
  imports Complex_Main
begin

section \<open>Board.js: the grid and its primitive operations\<close>

definition ROWS :: nat where "ROWS = 6"
definition COLS :: nat where "COLS = 7"
definition EMPTY :: int where "EMPTY = 0"
definition PLAYER_1 :: int where "PLAYER_1 = 1"
definition PLAYER_2 :: int where "PLAYER_2 = 2"

text \<open>The only field of class \<open>Board\<close> is \<open>grid\<close>, an array of row arrays of numbers;
  row 0 is the bottom row.\<close>

type_synonym Board = "int list list"

text \<open>The shape every \<open>Board\<close> has after its constructor ran: \<open>ROWS\<close> rows of \<open>COLS\<close> cells.\<close>

definition wf_board :: "Board \<Rightarrow> bool" where
  "wf_board b = (length b = ROWS \<and> list_all (\<lambda>r. length r = COLS) b)"

definition reset :: Board where
  "reset = replicate ROWS (replicate COLS EMPTY)"

text \<open>\<open>getCell\<close> returns \<open>null\<close> (here \<open>None\<close>) outside the grid.\<close>

definition getCell :: "Board \<Rightarrow> int \<Rightarrow> int \<Rightarrow> int option" where
  "getCell b row col =
     (if row < 0 \<or> row \<ge> int ROWS \<or> col < 0 \<or> col \<ge> int COLS then None
      else Some (b ! nat row ! nat col))"

definition setCell :: "Board \<Rightarrow> int \<Rightarrow> int \<Rightarrow> int \<Rightarrow> Board" where
  "setCell b row col v =
     (if row \<ge> 0 \<and> row < int ROWS \<and> col \<ge> 0 \<and> col < int COLS
      then b[nat row := (b ! nat row)[nat col := v]] else b)"

text \<open>The \<open>for\<close> loop of \<open>findLowestRow\<close> returns the first row, counted from 0, whose cell
  in the column is \<open>EMPTY\<close>; \<open>-1\<close> stands for a full column and for a column outside the grid.\<close>

definition findLowestRow :: "Board \<Rightarrow> int \<Rightarrow> int" where
  "findLowestRow b col =
     (if col < 0 \<or> col \<ge> int COLS then - 1
      else case find (\<lambda>row. b ! row ! nat col = EMPTY) [0..<ROWS] of
             Some row \<Rightarrow> int row
           | None \<Rightarrow> - 1)"

definition isColumnFull :: "Board \<Rightarrow> int \<Rightarrow> bool" where
  "isColumnFull b col = (findLowestRow b col = - 1)"

text \<open>\<open>dropToken\<close> mutates the receiver; the model returns the row together with the
  board after the call.\<close>

definition dropToken :: "Board \<Rightarrow> int \<Rightarrow> int \<Rightarrow> int \<times> Board" where
  "dropToken b col player =
     (let row = findLowestRow b col in
      if row = - 1 then (- 1, b)
      else (row, b[nat row := (b ! nat row)[nat col := player]]))"

definition isFull :: "Board \<Rightarrow> bool" where
  "isFull b = (find (\<lambda>col. \<not> isColumnFull b (int col)) [0..<COLS] = None)"

definition getValidMoves :: "Board \<Rightarrow> int list" where
  "getValidMoves b = map int (filter (\<lambda>col. \<not> isColumnFull b (int col)) [0..<COLS])"

text \<open>\<open>clone\<close> builds a new board and copies the cells one by one.\<close>

definition clone :: "Board \<Rightarrow> Board" where
  "clone b = map (\<lambda>row. map (\<lambda>col. b ! row ! col) [0..<COLS]) [0..<ROWS]"

text \<open>Gravity: in every column no empty cell lies below an occupied one.\<close>

definition gravity :: "Board \<Rightarrow> bool" where
  "gravity b =
     list_all (\<lambda>col. list_all (\<lambda>row. b ! row ! col = EMPTY \<or>
                 list_all (\<lambda>r. b ! r ! col \<noteq> EMPTY) [0..<row]) [0..<ROWS]) [0..<COLS]"

section \<open>GameLogic.js: win detection through the last placed token\<close>

definition DIRECTIONS :: "(int \<times> int) list" where
  "DIRECTIONS = [(0, 1), (1, 0), (1, 1), (1, - 1)]"

definition isValidPosition :: "int \<Rightarrow> int \<Rightarrow> bool" where
  "isValidPosition row col = (row \<ge> 0 \<and> row < int ROWS \<and> col \<ge> 0 \<and> col < int COLS)"

text \<open>The guard shared by both \<open>while\<close> loops of \<open>getConnectedPositions\<close>.\<close>

definition matches :: "Board \<Rightarrow> int \<Rightarrow> int \<Rightarrow> int \<Rightarrow> bool" where
  "matches b p r c = (isValidPosition r c \<and> getCell b r c = Some p)"

text \<open>The two loops. Nothing in them bounds the number of iterations (with direction
  \<open>(0, 0)\<close> they would not stop), so a walk that does not return is \<open>None\<close>.\<close>

partial_function (option) pushLoop ::
  "Board \<Rightarrow> int \<Rightarrow> int \<Rightarrow> int \<Rightarrow> int \<Rightarrow> int \<Rightarrow> (int \<times> int) list \<Rightarrow> (int \<times> int) list option"
where
  "pushLoop b dRow dCol p r c ps =
     (if matches b p r c then pushLoop b dRow dCol p (r + dRow) (c + dCol) (ps @ [(r, c)])
      else Some ps)"

partial_function (option) unshiftLoop ::
  "Board \<Rightarrow> int \<Rightarrow> int \<Rightarrow> int \<Rightarrow> int \<Rightarrow> int \<Rightarrow> (int \<times> int) list \<Rightarrow> (int \<times> int) list option"
where
  "unshiftLoop b dRow dCol p r c ps =
     (if matches b p r c then unshiftLoop b dRow dCol p (r - dRow) (c - dCol) ((r, c) # ps)
      else Some ps)"

definition getConnectedPositions ::
  "Board \<Rightarrow> int \<Rightarrow> int \<Rightarrow> int \<Rightarrow> int \<Rightarrow> int \<Rightarrow> (int \<times> int) list option"
where
  "getConnectedPositions b row col dRow dCol p =
     (case pushLoop b dRow dCol p (row + dRow) (col + dCol) [(row, col)] of
        None \<Rightarrow> None
      | Some ps \<Rightarrow> unshiftLoop b dRow dCol p (row - dRow) (col - dCol) ps)"

text \<open>The object \<open>{player, positions}\<close> returned for a win; \<open>null\<close> is the inner \<open>None\<close>.\<close>

record WinInfo =
  player :: int
  positions :: "(int \<times> int) list"

fun checkWinFrom ::
  "Board \<Rightarrow> int \<Rightarrow> int \<Rightarrow> int \<Rightarrow> (int \<times> int) list \<Rightarrow> WinInfo option option"
where
  "checkWinFrom b row col p [] = Some None"
| "checkWinFrom b row col p ((dRow, dCol) # ds) =
     (case getConnectedPositions b row col dRow dCol p of
        None \<Rightarrow> None
      | Some ps \<Rightarrow>
          if length ps \<ge> 4 then Some (Some \<lparr>player = p, positions = take 4 ps\<rparr>)
          else checkWinFrom b row col p ds)"

definition checkWin :: "Board \<Rightarrow> int \<Rightarrow> int \<Rightarrow> int \<Rightarrow> WinInfo option option" where
  "checkWin b row col p = checkWinFrom b row col p DIRECTIONS"

text \<open>Vocabulary for the statements about \<open>checkWin\<close>: \<open>runs\<close> says that, seen from
  \<open>(row, col)\<close> along \<open>(dRow, dCol)\<close>, exactly the next \<open>n\<close> cells on the positive side and
  exactly the next \<open>m\<close> cells on the negative side pass the loop guard; \<open>line\<close> lists the
  coordinates at offsets \<open>-m, ..., n\<close> in that order.\<close>

definition runs :: "Board \<Rightarrow> int \<Rightarrow> int \<Rightarrow> int \<Rightarrow> int \<Rightarrow> int \<Rightarrow> nat \<Rightarrow> nat \<Rightarrow> bool" where
  "runs b p row col dRow dCol m n =
     (list_all (\<lambda>i. matches b p (row + int i * dRow) (col + int i * dCol)) [1..<Suc n] \<and>
      \<not> matches b p (row + int (Suc n) * dRow) (col + int (Suc n) * dCol) \<and>
      list_all (\<lambda>i. matches b p (row - int i * dRow) (col - int i * dCol)) [1..<Suc m] \<and>
      \<not> matches b p (row - int (Suc m) * dRow) (col - int (Suc m) * dCol))"

definition line :: "int \<Rightarrow> int \<Rightarrow> int \<Rightarrow> int \<Rightarrow> nat \<Rightarrow> nat \<Rightarrow> (int \<times> int) list" where
  "line row col dRow dCol m n =
     map (\<lambda>k. (row + (int k - int m) * dRow, col + (int k - int m) * dCol)) [0..<m + n + 1]"

section \<open>AI.js: the search engine\<close>

definition AI_PLAYER :: int where "AI_PLAYER = PLAYER_2"
definition HUMAN_PLAYER :: int where "HUMAN_PLAYER = PLAYER_1"

datatype difficulty = EASY | MEDIUM | HARD

fun DEPTH_CONFIG :: "difficulty \<Rightarrow> nat" where
  "DEPTH_CONFIG EASY = 2"
| "DEPTH_CONFIG MEDIUM = 4"
| "DEPTH_CONFIG HARD = 6"

definition WIN :: int where "WIN = 100000"
definition THREE_IN_ROW :: int where "THREE_IN_ROW = 100"
definition TWO_IN_ROW :: int where "TWO_IN_ROW = 10"
definition CENTER_BONUS :: int where "CENTER_BONUS = 3"
definition BLOCK_THREE :: int where "BLOCK_THREE = 80"
definition BLOCK_TWO :: int where "BLOCK_TWO = 8"

text \<open>The fields of an \<open>AI\<close> object, and the object its constructor builds.\<close>

record AI =
  difficulty :: difficulty
  aiPlayer :: int
  humanPlayer :: int

definition newAI :: "difficulty \<Rightarrow> AI" where
  "newAI d = \<lparr>difficulty = d, aiPlayer = AI_PLAYER, humanPlayer = HUMAN_PLAYER\<rparr>"

definition setDifficulty :: "AI \<Rightarrow> difficulty \<Rightarrow> AI" where
  "setDifficulty ai d = ai\<lparr>difficulty := d\<rparr>"

text \<open>Scores are JavaScript numbers: integers here, and the two infinities the search
  starts its bounds from.\<close>

datatype jsnum = NegInf | Fin int | PosInf

instantiation jsnum :: linorder
begin

fun less_eq_jsnum :: "jsnum \<Rightarrow> jsnum \<Rightarrow> bool" where
  "less_eq_jsnum NegInf y = True"
| "less_eq_jsnum (Fin x) NegInf = False"
| "less_eq_jsnum (Fin x) (Fin y) = (x \<le> y)"
| "less_eq_jsnum (Fin x) PosInf = True"
| "less_eq_jsnum PosInf PosInf = True"
| "less_eq_jsnum PosInf y = False"

definition less_jsnum :: "jsnum \<Rightarrow> jsnum \<Rightarrow> bool" where
  "less_jsnum x y = (x \<le> y \<and> \<not> y \<le> x)"

instance
proof
  fix x y z :: jsnum
  show "(x < y) = (x \<le> y \<and> \<not> y \<le> x)" by (simp add: less_jsnum_def)
  show "x \<le> x" by (cases x) simp_all
  show "x \<le> y \<Longrightarrow> y \<le> z \<Longrightarrow> x \<le> z" by (cases x; cases y; cases z) simp_all
  show "x \<le> y \<Longrightarrow> y \<le> x \<Longrightarrow> x = y" by (cases x; cases y) simp_all
  show "x \<le> y \<or> y \<le> x" by (cases x; cases y) auto
qed

end

text \<open>The four cells starting at \<open>(row, col)\<close> in steps of \<open>(dRow, dCol)\<close>.\<close>

definition window :: "Board \<Rightarrow> int \<Rightarrow> int \<Rightarrow> int \<Rightarrow> int \<Rightarrow> int option list" where
  "window b row col dRow dCol =
     [getCell b row col, getCell b (row + dRow) (col + dCol),
      getCell b (row + 2 * dRow) (col + 2 * dCol), getCell b (row + 3 * dRow) (col + 3 * dCol)]"

definition evaluateWindow :: "AI \<Rightarrow> int option list \<Rightarrow> int" where
  "evaluateWindow ai w =
     (let aiCount = length (filter (\<lambda>cell. cell = Some (aiPlayer ai)) w);
          humanCount = length (filter (\<lambda>cell. cell = Some (humanPlayer ai)) w);
          emptyCount = length (filter (\<lambda>cell. cell = Some EMPTY) w)
      in (if aiCount = 4 then WIN
          else if aiCount = 3 \<and> emptyCount = 1 then THREE_IN_ROW
          else if aiCount = 2 \<and> emptyCount = 2 then TWO_IN_ROW
          else 0)
         - (if humanCount = 4 then WIN
            else if humanCount = 3 \<and> emptyCount = 1 then BLOCK_THREE
            else if humanCount = 2 \<and> emptyCount = 2 then BLOCK_TWO
            else 0))"

text \<open>The start cells of the four families of windows, in the order the nested loops of
  \<open>evaluateAllWindows\<close> and \<open>checkWinner\<close> visit them.\<close>

definition horizontalStarts :: "(int \<times> int) list" where
  "horizontalStarts = concat (map (\<lambda>row. map (\<lambda>col. (int row, int col)) [0..<COLS - 3]) [0..<ROWS])"

definition verticalStarts :: "(int \<times> int) list" where
  "verticalStarts = concat (map (\<lambda>col. map (\<lambda>row. (int row, int col)) [0..<ROWS - 3]) [0..<COLS])"

definition diagonalUpStarts :: "(int \<times> int) list" where
  "diagonalUpStarts = concat (map (\<lambda>row. map (\<lambda>col. (int row, int col)) [0..<COLS - 3]) [0..<ROWS - 3])"

definition diagonalDownStarts :: "(int \<times> int) list" where
  "diagonalDownStarts = concat (map (\<lambda>row. map (\<lambda>col. (int row, int col)) [0..<COLS - 3]) [3..<ROWS])"

definition evaluateAllWindows :: "AI \<Rightarrow> Board \<Rightarrow> int" where
  "evaluateAllWindows ai b =
     sum_list (map (\<lambda>(row, col). evaluateWindow ai (window b row col 0 1)) horizontalStarts)
     + sum_list (map (\<lambda>(row, col). evaluateWindow ai (window b row col 1 0)) verticalStarts)
     + sum_list (map (\<lambda>(row, col). evaluateWindow ai (window b row col 1 1)) diagonalUpStarts)
     + sum_list (map (\<lambda>(row, col). evaluateWindow ai (window b row col (- 1) 1)) diagonalDownStarts)"

definition evaluateBoard :: "AI \<Rightarrow> Board \<Rightarrow> int" where
  "evaluateBoard ai b =
     (let centerCol = int (COLS div 2) in
      sum_list (map (\<lambda>row.
          if getCell b (int row) centerCol = Some (aiPlayer ai) then CENTER_BONUS
          else if getCell b (int row) centerCol = Some (humanPlayer ai) then - CENTER_BONUS
          else 0) [0..<ROWS])
      + evaluateAllWindows ai b)"

text \<open>\<open>sort\<close> of an array is stable; \<open>sort_key\<close> is a stable insertion sort.\<close>

definition orderMoves :: "int list \<Rightarrow> int list" where
  "orderMoves moves = sort_key (\<lambda>a. \<bar>int (COLS div 2) - a\<bar>) moves"

definition AI_getValidMoves :: "Board \<Rightarrow> int list" where
  "AI_getValidMoves b = map int (filter (\<lambda>col. \<not> isColumnFull b (int col)) [0..<COLS])"

text \<open>The test of \<open>checkWinner\<close> on one window: the first cell is not \<open>EMPTY\<close> and the
  other three are equal to it.\<close>

definition fourEqual :: "Board \<Rightarrow> int \<Rightarrow> int \<Rightarrow> int \<Rightarrow> int \<Rightarrow> bool" where
  "fourEqual b row col dRow dCol =
     (let cell = getCell b row col in
      cell \<noteq> Some EMPTY \<and>
      cell = getCell b (row + dRow) (col + dCol) \<and>
      cell = getCell b (row + 2 * dRow) (col + 2 * dCol) \<and>
      cell = getCell b (row + 3 * dRow) (col + 3 * dCol))"

definition checkWinner :: "Board \<Rightarrow> int option" where
  "checkWinner b =
     (case find (\<lambda>(row, col). fourEqual b row col 0 1) horizontalStarts of
        Some (row, col) \<Rightarrow> getCell b row col
      | None \<Rightarrow>
     (case find (\<lambda>(row, col). fourEqual b row col 1 0) verticalStarts of
        Some (row, col) \<Rightarrow> getCell b row col
      | None \<Rightarrow>
     (case find (\<lambda>(row, col). fourEqual b row col 1 1) diagonalUpStarts of
        Some (row, col) \<Rightarrow> getCell b row col
      | None \<Rightarrow>
     (case find (\<lambda>(row, col). fourEqual b row col (- 1) 1) diagonalDownStarts of
        Some (row, col) \<Rightarrow> getCell b row col
      | None \<Rightarrow> None))))"

text \<open>Vocabulary for the statement about \<open>checkWinner\<close>: the four cells from \<open>(r, c)\<close> in
  steps of \<open>(dRow, dCol)\<close> all hold \<open>p\<close> (so all four lie inside the grid).\<close>

definition fourOf :: "Board \<Rightarrow> int \<Rightarrow> int \<Rightarrow> int \<Rightarrow> int \<Rightarrow> int \<Rightarrow> bool" where
  "fourOf b p r c dRow dCol =
     (getCell b r c = Some p \<and> getCell b (r + dRow) (c + dCol) = Some p \<and>
      getCell b (r + 2 * dRow) (c + 2 * dCol) = Some p \<and>
      getCell b (r + 3 * dRow) (c + 3 * dCol) = Some p)"

definition isBoardFull :: "Board \<Rightarrow> bool" where
  "isBoardFull b = (find (\<lambda>col. \<not> isColumnFull b (int col)) [0..<COLS] = None)"

text \<open>\<open>minimax\<close> with its two \<open>for\<close> loops. A loop takes the moves still to visit and the
  current \<open>maxScore\<close> (\<open>minScore\<close>), \<open>alpha\<close> and \<open>beta\<close>; \<open>break\<close> ends it. The depth is a
  natural number: \<open>getBestMove\<close> starts from 2, 4 or 6 and the recursion stops at 0.\<close>

function minimax :: "AI \<Rightarrow> Board \<Rightarrow> nat \<Rightarrow> jsnum \<Rightarrow> jsnum \<Rightarrow> bool \<Rightarrow> jsnum"
  and maxLoop :: "AI \<Rightarrow> Board \<Rightarrow> nat \<Rightarrow> int list \<Rightarrow> jsnum \<Rightarrow> jsnum \<Rightarrow> jsnum \<Rightarrow> jsnum"
  and minLoop :: "AI \<Rightarrow> Board \<Rightarrow> nat \<Rightarrow> int list \<Rightarrow> jsnum \<Rightarrow> jsnum \<Rightarrow> jsnum \<Rightarrow> jsnum"
where
  "minimax ai b depth alpha beta isMaximizing =
     (if checkWinner b = Some (aiPlayer ai) then Fin (WIN + int depth)
      else if checkWinner b = Some (humanPlayer ai) then Fin (- WIN - int depth)
      else if isBoardFull b then Fin 0
      else if depth = 0 then Fin (evaluateBoard ai b)
      else if isMaximizing
        then maxLoop ai b (depth - 1) (orderMoves (AI_getValidMoves b)) NegInf alpha beta
        else minLoop ai b (depth - 1) (orderMoves (AI_getValidMoves b)) PosInf alpha beta)"
| "maxLoop ai b d [] maxScore alpha beta = maxScore"
| "maxLoop ai b d (col # cols) maxScore alpha beta =
     (let score = minimax ai (snd (dropToken (clone b) col (aiPlayer ai))) d alpha beta False in
      if beta \<le> max alpha score then max maxScore score
      else maxLoop ai b d cols (max maxScore score) (max alpha score) beta)"
| "minLoop ai b d [] minScore alpha beta = minScore"
| "minLoop ai b d (col # cols) minScore alpha beta =
     (let score = minimax ai (snd (dropToken (clone b) col (humanPlayer ai))) d alpha beta True in
      if min beta score \<le> alpha then min minScore score
      else minLoop ai b d cols (min minScore score) alpha (min beta score))"
  by pat_completeness auto

termination
  by (relation "measures
        [\<lambda>x. case x of Inl (ai, b, depth, r) \<Rightarrow> 2 * depth
                       | Inr (Inl (ai, b, d, r)) \<Rightarrow> 2 * d + 1
                       | Inr (Inr (ai, b, d, r)) \<Rightarrow> 2 * d + 1,
         \<lambda>x. case x of Inl r \<Rightarrow> 0
                       | Inr (Inl (ai, b, d, cols, r)) \<Rightarrow> length cols
                       | Inr (Inr (ai, b, d, cols, r)) \<Rightarrow> length cols]")
     auto

text \<open>The loop of \<open>getBestMove\<close>; \<open>d\<close> is \<open>depth - 1\<close>.\<close>

fun bestMoveLoop :: "AI \<Rightarrow> Board \<Rightarrow> nat \<Rightarrow> int list \<Rightarrow> jsnum \<Rightarrow> int \<Rightarrow> int" where
  "bestMoveLoop ai b d [] bestScore bestMove = bestMove"
| "bestMoveLoop ai b d (col # cols) bestScore bestMove =
     (let score = minimax ai (snd (dropToken (clone b) col (aiPlayer ai))) d NegInf PosInf False in
      if score > bestScore then bestMoveLoop ai b d cols score col
      else bestMoveLoop ai b d cols bestScore bestMove)"

text \<open>\<open>getBestMove\<close>. The two values \<open>Math.random()\<close> may return during the call are the
  arguments \<open>rnd1\<close> and \<open>rnd2\<close>, both in \<open>[0, 1)\<close>.\<close>

definition getBestMove :: "AI \<Rightarrow> real \<Rightarrow> real \<Rightarrow> Board \<Rightarrow> int" where
  "getBestMove ai rnd1 rnd2 b =
     (let validMoves = AI_getValidMoves b in
      if length validMoves = 0 then - 1
      else if length validMoves = 1 then validMoves ! 0
      else if difficulty ai = EASY \<and> rnd1 < 0.6
        then validMoves ! nat \<lfloor>rnd2 * real (length validMoves)\<rfloor>
      else
        let depth = (if DEPTH_CONFIG (difficulty ai) = 0 then 4 else DEPTH_CONFIG (difficulty ai))
        in bestMoveLoop ai b (depth - 1) (orderMoves validMoves) NegInf (validMoves ! 0))"

section \<open>The search without pruning\<close>

text \<open>The reference the pruned search is compared with: the same functions with the two
  \<open>break\<close> statements removed, so that every move of every node is visited. Without a
  \<open>break\<close> the bounds \<open>alpha\<close> and \<open>beta\<close> are never read and are left out.\<close>

function minimaxUnpruned :: "AI \<Rightarrow> Board \<Rightarrow> nat \<Rightarrow> bool \<Rightarrow> jsnum"
  and maxLoopUnpruned :: "AI \<Rightarrow> Board \<Rightarrow> nat \<Rightarrow> int list \<Rightarrow> jsnum \<Rightarrow> jsnum"
  and minLoopUnpruned :: "AI \<Rightarrow> Board \<Rightarrow> nat \<Rightarrow> int list \<Rightarrow> jsnum \<Rightarrow> jsnum"
where
  "minimaxUnpruned ai b depth isMaximizing =
     (if checkWinner b = Some (aiPlayer ai) then Fin (WIN + int depth)
      else if checkWinner b = Some (humanPlayer ai) then Fin (- WIN - int depth)
      else if isBoardFull b then Fin 0
      else if depth = 0 then Fin (evaluateBoard ai b)
      else if isMaximizing
        then maxLoopUnpruned ai b (depth - 1) (orderMoves (AI_getValidMoves b)) NegInf
        else minLoopUnpruned ai b (depth - 1) (orderMoves (AI_getValidMoves b)) PosInf)"
| "maxLoopUnpruned ai b d [] maxScore = maxScore"
| "maxLoopUnpruned ai b d (col # cols) maxScore =
     maxLoopUnpruned ai b d cols
       (max maxScore (minimaxUnpruned ai (snd (dropToken (clone b) col (aiPlayer ai))) d False))"
| "minLoopUnpruned ai b d [] minScore = minScore"
| "minLoopUnpruned ai b d (col # cols) minScore =
     minLoopUnpruned ai b d cols
       (min minScore (minimaxUnpruned ai (snd (dropToken (clone b) col (humanPlayer ai))) d True))"
  by pat_completeness auto

termination
  by (relation "measures
        [\<lambda>x. case x of Inl (ai, b, depth, r) \<Rightarrow> 2 * depth
                       | Inr (Inl (ai, b, d, r)) \<Rightarrow> 2 * d + 1
                       | Inr (Inr (ai, b, d, r)) \<Rightarrow> 2 * d + 1,
         \<lambda>x. case x of Inl r \<Rightarrow> 0
                       | Inr (Inl (ai, b, d, cols, r)) \<Rightarrow> length cols
                       | Inr (Inr (ai, b, d, cols, r)) \<Rightarrow> length cols]")
     auto

fun bestMoveLoopUnpruned :: "AI \<Rightarrow> Board \<Rightarrow> nat \<Rightarrow> int list \<Rightarrow> jsnum \<Rightarrow> int \<Rightarrow> int" where
  "bestMoveLoopUnpruned ai b d [] bestScore bestMove = bestMove"
| "bestMoveLoopUnpruned ai b d (col # cols) bestScore bestMove =
     (let score = minimaxUnpruned ai (snd (dropToken (clone b) col (aiPlayer ai))) d False in
      if score > bestScore then bestMoveLoopUnpruned ai b d cols score col
      else bestMoveLoopUnpruned ai b d cols bestScore bestMove)"

definition getBestMoveUnpruned :: "AI \<Rightarrow> real \<Rightarrow> real \<Rightarrow> Board \<Rightarrow> int" where
  "getBestMoveUnpruned ai rnd1 rnd2 b =
     (let validMoves = AI_getValidMoves b in
      if length validMoves = 0 then - 1
      else if length validMoves = 1 then validMoves ! 0
      else if difficulty ai = EASY \<and> rnd1 < 0.6
        then validMoves ! nat \<lfloor>rnd2 * real (length validMoves)\<rfloor>
      else
        let depth = (if DEPTH_CONFIG (difficulty ai) = 0 then 4 else DEPTH_CONFIG (difficulty ai))
        in bestMoveLoopUnpruned ai b (depth - 1) (orderMoves validMoves) NegInf (validMoves ! 0))"

section \<open>The engine on a store of row arrays\<close>

text \<open>\<open>clone\<close> and \<open>dropToken\<close> act on objects: a \<open>Board\<close> holds an array of row arrays
  and \<open>dropToken\<close> writes into one of them. To say which boards a call can change, the row
  arrays live in a store, addressed by their position in it; a new array gets the next free
  address. A board is known by the addresses of its rows, and \<open>deref\<close> reads its content.
  The methods that only read a board are applied to that content.\<close>

type_synonym addr = nat
type_synonym store = "int list list"
type_synonym BoardRef = "addr list"

definition deref :: "store \<Rightarrow> BoardRef \<Rightarrow> Board" where
  "deref h board = map (\<lambda>a. h ! a) board"

text \<open>A board reference is usable in a store when it has \<open>ROWS\<close> rows, all allocated and no
  two the same array.\<close>

definition wf_ref :: "store \<Rightarrow> BoardRef \<Rightarrow> bool" where
  "wf_ref h board = (length board = ROWS \<and> distinct board \<and> list_all (\<lambda>a. a < length h) board)"

text \<open>\<open>new Board()\<close>: the constructor pushes \<open>ROWS\<close> new arrays filled with \<open>EMPTY\<close>.\<close>

definition new_Board :: "store \<Rightarrow> BoardRef \<times> store" where
  "new_Board h = ([length h..<length h + ROWS], h @ replicate ROWS (replicate COLS EMPTY))"

text \<open>One assignment \<open>newBoard.grid[row][col] = this.grid[row][col]\<close>, and \<open>clone\<close>, which
  runs it for every row and, within a row, every column.\<close>

definition copyCell :: "BoardRef \<Rightarrow> BoardRef \<Rightarrow> nat \<times> nat \<Rightarrow> store \<Rightarrow> store" where
  "copyCell this newBoard = (\<lambda>(row, col) h.
     h[newBoard ! row := (h ! (newBoard ! row))[col := h ! (this ! row) ! col]])"

definition clone_h :: "store \<Rightarrow> BoardRef \<Rightarrow> BoardRef \<times> store" where
  "clone_h h board =
     (let newBoard = fst (new_Board h); h1 = snd (new_Board h)
      in (newBoard, fold (copyCell board newBoard) (List.product [0..<ROWS] [0..<COLS]) h1))"

definition dropToken_h :: "store \<Rightarrow> BoardRef \<Rightarrow> int \<Rightarrow> int \<Rightarrow> int \<times> store" where
  "dropToken_h h board col p =
     (let row = findLowestRow (deref h board) col in
      if row = - 1 then (- 1, h)
      else (row, h[board ! nat row := (h ! (board ! nat row))[nat col := p]]))"

function minimax_h :: "AI \<Rightarrow> store \<Rightarrow> BoardRef \<Rightarrow> nat \<Rightarrow> jsnum \<Rightarrow> jsnum \<Rightarrow> bool \<Rightarrow> jsnum \<times> store"
  and maxLoop_h ::
    "AI \<Rightarrow> store \<Rightarrow> BoardRef \<Rightarrow> nat \<Rightarrow> int list \<Rightarrow> jsnum \<Rightarrow> jsnum \<Rightarrow> jsnum \<Rightarrow> jsnum \<times> store"
  and minLoop_h ::
    "AI \<Rightarrow> store \<Rightarrow> BoardRef \<Rightarrow> nat \<Rightarrow> int list \<Rightarrow> jsnum \<Rightarrow> jsnum \<Rightarrow> jsnum \<Rightarrow> jsnum \<times> store"
where
  "minimax_h ai h board depth alpha beta isMaximizing =
     (if checkWinner (deref h board) = Some (aiPlayer ai) then (Fin (WIN + int depth), h)
      else if checkWinner (deref h board) = Some (humanPlayer ai) then (Fin (- WIN - int depth), h)
      else if isBoardFull (deref h board) then (Fin 0, h)
      else if depth = 0 then (Fin (evaluateBoard ai (deref h board)), h)
      else if isMaximizing
        then maxLoop_h ai h board (depth - 1) (orderMoves (AI_getValidMoves (deref h board)))
               NegInf alpha beta
        else minLoop_h ai h board (depth - 1) (orderMoves (AI_getValidMoves (deref h board)))
               PosInf alpha beta)"
| "maxLoop_h ai h board d [] maxScore alpha beta = (maxScore, h)"
| "maxLoop_h ai h board d (col # cols) maxScore alpha beta =
     (let boardCopy = clone_h h board;
          dropped = dropToken_h (snd boardCopy) (fst boardCopy) col (aiPlayer ai);
          score = minimax_h ai (snd dropped) (fst boardCopy) d alpha beta False
      in if beta \<le> max alpha (fst score) then (max maxScore (fst score), snd score)
         else maxLoop_h ai (snd score) board d cols
                (max maxScore (fst score)) (max alpha (fst score)) beta)"
| "minLoop_h ai h board d [] minScore alpha beta = (minScore, h)"
| "minLoop_h ai h board d (col # cols) minScore alpha beta =
     (let boardCopy = clone_h h board;
          dropped = dropToken_h (snd boardCopy) (fst boardCopy) col (humanPlayer ai);
          score = minimax_h ai (snd dropped) (fst boardCopy) d alpha beta True
      in if min beta (fst score) \<le> alpha then (min minScore (fst score), snd score)
         else minLoop_h ai (snd score) board d cols
                (min minScore (fst score)) alpha (min beta (fst score)))"
  by pat_completeness auto

termination
  by (relation "measures
        [\<lambda>x. case x of Inl (ai, h, b, depth, r) \<Rightarrow> 2 * depth
                       | Inr (Inl (ai, h, b, d, r)) \<Rightarrow> 2 * d + 1
                       | Inr (Inr (ai, h, b, d, r)) \<Rightarrow> 2 * d + 1,
         \<lambda>x. case x of Inl r \<Rightarrow> 0
                       | Inr (Inl (ai, h, b, d, cols, r)) \<Rightarrow> length cols
                       | Inr (Inr (ai, h, b, d, cols, r)) \<Rightarrow> length cols]")
     auto

fun bestMoveLoop_h ::
  "AI \<Rightarrow> store \<Rightarrow> BoardRef \<Rightarrow> nat \<Rightarrow> int list \<Rightarrow> jsnum \<Rightarrow> int \<Rightarrow> int \<times> store"
where
  "bestMoveLoop_h ai h board d [] bestScore bestMove = (bestMove, h)"
| "bestMoveLoop_h ai h board d (col # cols) bestScore bestMove =
     (let boardCopy = clone_h h board;
          dropped = dropToken_h (snd boardCopy) (fst boardCopy) col (aiPlayer ai);
          score = minimax_h ai (snd dropped) (fst boardCopy) d NegInf PosInf False
      in if fst score > bestScore then bestMoveLoop_h ai (snd score) board d cols (fst score) col
         else bestMoveLoop_h ai (snd score) board d cols bestScore bestMove)"

definition getBestMove_h :: "AI \<Rightarrow> real \<Rightarrow> real \<Rightarrow> store \<Rightarrow> BoardRef \<Rightarrow> int \<times> store" where
  "getBestMove_h ai rnd1 rnd2 h board =
     (let validMoves = AI_getValidMoves (deref h board) in
      if length validMoves = 0 then (- 1, h)
      else if length validMoves = 1 then (validMoves ! 0, h)
      else if difficulty ai = EASY \<and> rnd1 < 0.6
        then (validMoves ! nat \<lfloor>rnd2 * real (length validMoves)\<rfloor>, h)
      else
        let depth = (if DEPTH_CONFIG (difficulty ai) = 0 then 4 else DEPTH_CONFIG (difficulty ai))
        in bestMoveLoop_h ai h board (depth - 1) (orderMoves validMoves) NegInf (validMoves ! 0))"

text \<open>The relation between the value \<open>v\<close> of a node and the result \<open>r\<close> of a search of
  that node with the window \<open>(a, b)\<close>: a result at or below \<open>a\<close> is an upper bound of
  the value, a result at or above \<open>b\<close> is a lower bound, and a result strictly inside the
  window is the value.\<close>

definition approx :: "'a::linorder \<Rightarrow> 'a \<Rightarrow> 'a \<Rightarrow> 'a \<Rightarrow> bool" where
  "approx a b v r = ((r \<le> a \<longrightarrow> v \<le> r) \<and> (a < r \<and> r < b \<longrightarrow> v = r) \<and> (b \<le> r \<longrightarrow> r \<le> v))"

section \<open>Example positions\<close>

text \<open>Column 0 is full, column 1 holds one token, the other columns are empty.\<close>

definition exampleTower :: Board where
  "exampleTower =
     [[1, 2, 0, 0, 0, 0, 0],
      [1, 0, 0, 0, 0, 0, 0],
      [2, 0, 0, 0, 0, 0, 0],
      [1, 0, 0, 0, 0, 0, 0],
      [2, 0, 0, 0, 0, 0, 0],
      [1, 0, 0, 0, 0, 0, 0]]"

text \<open>Three tokens of player 1 at the left end of the bottom row, nothing else.\<close>

definition exampleThree :: Board where
  "exampleThree =
     [[1, 1, 1, 0, 0, 0, 0],
      [0, 0, 0, 0, 0, 0, 0],
      [0, 0, 0, 0, 0, 0, 0],
      [0, 0, 0, 0, 0, 0, 0],
      [0, 0, 0, 0, 0, 0, 0],
      [0, 0, 0, 0, 0, 0, 0]]"

text \<open>A full board without four equal cells in a line.\<close>

definition exampleDraw :: Board where
  "exampleDraw =
     [[1, 1, 2, 2, 1, 1, 2],
      [2, 2, 1, 1, 2, 2, 1],
      [1, 1, 2, 2, 1, 1, 2],
      [2, 2, 1, 1, 2, 2, 1],
      [1, 1, 2, 2, 1, 1, 2],
      [2, 2, 1, 1, 2, 2, 1]]"

text \<open>The same board with the top cell of column 3 still empty.\<close>

definition exampleOneLeft :: Board where
  "exampleOneLeft =
     [[1, 1, 2, 2, 1, 1, 2],
      [2, 2, 1, 1, 2, 2, 1],
      [1, 1, 2, 2, 1, 1, 2],
      [2, 2, 1, 1, 2, 2, 1],
      [1, 1, 2, 2, 1, 1, 2],
      [2, 2, 1, 0, 2, 2, 1]]"

text \<open>Four tokens of one player at the left end of the bottom row.\<close>

definition exampleFour :: "int \<Rightarrow> Board" where
  "exampleFour p =
     [[p, p, p, p, 0, 0, 0],
      [0, 0, 0, 0, 0, 0, 0],
      [0, 0, 0, 0, 0, 0, 0],
      [0, 0, 0, 0, 0, 0, 0],
      [0, 0, 0, 0, 0, 0, 0],
      [0, 0, 0, 0, 0, 0, 0]]"

text \<open>The board whose rows are the first six arrays of a store.\<close>

definition exampleRef :: BoardRef where
  "exampleRef = [0, 1, 2, 3, 4, 5]"

section \<open>Facts about the board operations\<close>

text \<open>The equation of \<open>minimax\<close> is unfolded by hand.\<close>

declare minimax.simps [simp del]

lemma findLowestRow_cases:
  "findLowestRow b col = - 1 \<or>
   (0 \<le> col \<and> col < int COLS \<and>
    (\<exists>row < ROWS. findLowestRow b col = int row \<and> b ! row ! nat col = EMPTY \<and>
       (\<forall>r < row. b ! r ! nat col \<noteq> EMPTY)))"
proof (cases "col < 0 \<or> col \<ge> int COLS")
  case True
  then show ?thesis by (simp add: findLowestRow_def)
next
  case False
  show ?thesis
  proof (cases "find (\<lambda>row. b ! row ! nat col = EMPTY) [0..<ROWS]")
    case None
    with False show ?thesis by (simp add: findLowestRow_def)
  next
    case (Some row)
    then obtain i where i: "i < length [0..<ROWS]" "b ! ([0..<ROWS] ! i) ! nat col = EMPTY"
      "row = [0..<ROWS] ! i" "\<forall>j<i. b ! ([0..<ROWS] ! j) ! nat col \<noteq> EMPTY"
      unfolding find_Some_iff by blast
    then have "row < ROWS" "b ! row ! nat col = EMPTY" "\<forall>r<row. b ! r ! nat col \<noteq> EMPTY"
      by auto
    with False Some show ?thesis by (auto simp: findLowestRow_def)
  qed
qed

lemma wf_board_nth: "wf_board b \<Longrightarrow> r < ROWS \<Longrightarrow> length (b ! r) = COLS"
  by (simp add: wf_board_def list_all_length)

lemma wf_board_update:
  "wf_board b \<Longrightarrow> wf_board (b[r := (b ! r)[c := v]])"
proof -
  assume wf: "wf_board b"
  have "length (b[r := (b ! r)[c := v]] ! n) = COLS" if "n < ROWS" for n
    using wf that by (cases "n = r") (simp_all add: wf_board_def list_all_length)
  with wf show ?thesis by (simp add: wf_board_def list_all_length)
qed

lemma nth_board_update:
  "wf_board b \<Longrightarrow> r < ROWS \<Longrightarrow> c < COLS \<Longrightarrow> r' < ROWS \<Longrightarrow> c' < COLS \<Longrightarrow>
   b[r := (b ! r)[c := v]] ! r' ! c' = (if r' = r \<and> c' = c then v else b ! r' ! c')"
  by (auto simp: wf_board_def list_all_length nth_list_update)

lemma gravity_iff:
  "gravity b \<longleftrightarrow>
   (\<forall>col < COLS. \<forall>row < ROWS. b ! row ! col \<noteq> EMPTY \<longrightarrow> (\<forall>r < row. b ! r ! col \<noteq> EMPTY))"
  unfolding gravity_def list_all_iff Ball_def by simp blast


lemma getCell_update:
  assumes "wf_board b" "r < ROWS" "c < COLS"
  shows "getCell (b[r := (b ! r)[c := v]]) r' c' =
         (if r' = int r \<and> c' = int c then Some v else getCell b r' c')"
proof (cases "r' < 0 \<or> r' \<ge> int ROWS \<or> c' < 0 \<or> c' \<ge> int COLS")
  case True
  with assms show ?thesis by (auto simp: getCell_def)
next
  case False
  then have "nat r' < ROWS" "nat c' < COLS" by auto
  from nth_board_update[OF assms this, of v] False show ?thesis
    by (auto simp: getCell_def)
qed

lemmas board_consts = ROWS_def COLS_def EMPTY_def PLAYER_1_def PLAYER_2_def

lemma exampleTower_wf: "wf_board exampleTower"
  by (simp add: exampleTower_def wf_board_def board_consts)

lemma exampleTower_gravity: "gravity exampleTower"
  by (simp add: exampleTower_def gravity_def board_consts upt_rec)

section \<open>The two walks of getConnectedPositions\<close>

lemma pushLoop_run:
  "(\<forall>i<n. matches b p (r + int i * dRow) (c + int i * dCol)) \<Longrightarrow>
   \<not> matches b p (r + int n * dRow) (c + int n * dCol) \<Longrightarrow>
   pushLoop b dRow dCol p r c ps =
     Some (ps @ map (\<lambda>i. (r + int i * dRow, c + int i * dCol)) [0..<n])"
proof (induction n arbitrary: r c ps)
  case 0
  then show ?case by (subst pushLoop.simps) simp
next
  case (Suc n)
  from Suc.prems(1) have m0: "matches b p r c" by force
  have step: "\<forall>i<n. matches b p ((r + dRow) + int i * dRow) ((c + dCol) + int i * dCol)"
  proof (intro allI impI)
    fix i assume "i < n"
    with Suc.prems(1) have "matches b p (r + int (Suc i) * dRow) (c + int (Suc i) * dCol)" by blast
    then show "matches b p ((r + dRow) + int i * dRow) ((c + dCol) + int i * dCol)"
      by (simp add: algebra_simps)
  qed
  have stop: "\<not> matches b p ((r + dRow) + int n * dRow) ((c + dCol) + int n * dCol)"
    using Suc.prems(2) by (simp add: algebra_simps)
  have "map (\<lambda>i. (r + int i * dRow, c + int i * dCol)) [0..<Suc n] =
        (r, c) # map (\<lambda>i. ((r + dRow) + int i * dRow, (c + dCol) + int i * dCol)) [0..<n]"
    by (simp add: map_upt_Suc algebra_simps del: upt_Suc)
  with Suc.IH[OF step stop, of "ps @ [(r, c)]"] m0 show ?case
    by (subst pushLoop.simps) simp
qed

lemma unshiftLoop_run:
  "(\<forall>i<n. matches b p (r - int i * dRow) (c - int i * dCol)) \<Longrightarrow>
   \<not> matches b p (r - int n * dRow) (c - int n * dCol) \<Longrightarrow>
   unshiftLoop b dRow dCol p r c ps =
     Some (rev (map (\<lambda>i. (r - int i * dRow, c - int i * dCol)) [0..<n]) @ ps)"
proof (induction n arbitrary: r c ps)
  case 0
  then show ?case by (subst unshiftLoop.simps) simp
next
  case (Suc n)
  from Suc.prems(1) have m0: "matches b p r c" by force
  have step: "\<forall>i<n. matches b p ((r - dRow) - int i * dRow) ((c - dCol) - int i * dCol)"
  proof (intro allI impI)
    fix i assume "i < n"
    with Suc.prems(1) have "matches b p (r - int (Suc i) * dRow) (c - int (Suc i) * dCol)" by blast
    then show "matches b p ((r - dRow) - int i * dRow) ((c - dCol) - int i * dCol)"
      by (simp add: algebra_simps)
  qed
  have stop: "\<not> matches b p ((r - dRow) - int n * dRow) ((c - dCol) - int n * dCol)"
    using Suc.prems(2) by (simp add: algebra_simps)
  have "map (\<lambda>i. (r - int i * dRow, c - int i * dCol)) [0..<Suc n] =
        (r, c) # map (\<lambda>i. ((r - dRow) - int i * dRow, (c - dCol) - int i * dCol)) [0..<n]"
    by (simp add: map_upt_Suc algebra_simps del: upt_Suc)
  with Suc.IH[OF step stop, of "(r, c) # ps"] m0 show ?case
    by (subst unshiftLoop.simps) simp
qed

lemma runs_iff:
  "runs b p row col dRow dCol m n \<longleftrightarrow>
     (\<forall>i. 1 \<le> i \<and> i \<le> n \<longrightarrow> matches b p (row + int i * dRow) (col + int i * dCol)) \<and>
     \<not> matches b p (row + int (Suc n) * dRow) (col + int (Suc n) * dCol) \<and>
     (\<forall>i. 1 \<le> i \<and> i \<le> m \<longrightarrow> matches b p (row - int i * dRow) (col - int i * dCol)) \<and>
     \<not> matches b p (row - int (Suc m) * dRow) (col - int (Suc m) * dCol)"
  unfolding runs_def list_all_iff by (auto simp: Suc_le_eq less_Suc_eq_le)

lemma getConnectedPositions_runs:
  assumes "runs b p row col dRow dCol m n"
  shows "getConnectedPositions b row col dRow dCol p = Some (line row col dRow dCol m n)"
proof -
  have
    pos: "\<forall>i<n. matches b p ((row + dRow) + int i * dRow) ((col + dCol) + int i * dCol)"
    and posStop: "\<not> matches b p ((row + dRow) + int n * dRow) ((col + dCol) + int n * dCol)"
    and neg: "\<forall>i<m. matches b p ((row - dRow) - int i * dRow) ((col - dCol) - int i * dCol)"
    and negStop: "\<not> matches b p ((row - dRow) - int m * dRow) ((col - dCol) - int m * dCol)"
  proof -
    from assms have a: "\<And>i. 1 \<le> i \<and> i \<le> n \<Longrightarrow> matches b p (row + int i * dRow) (col + int i * dCol)"
      and c: "\<And>i. 1 \<le> i \<and> i \<le> m \<Longrightarrow> matches b p (row - int i * dRow) (col - int i * dCol)"
      unfolding runs_iff by blast+
    show "\<forall>i<n. matches b p ((row + dRow) + int i * dRow) ((col + dCol) + int i * dCol)"
    proof (intro allI impI)
      fix i assume "i < n"
      with a[of "Suc i"] show "matches b p ((row + dRow) + int i * dRow) ((col + dCol) + int i * dCol)"
        by (simp add: algebra_simps)
    qed
    show "\<forall>i<m. matches b p ((row - dRow) - int i * dRow) ((col - dCol) - int i * dCol)"
    proof (intro allI impI)
      fix i assume "i < m"
      with c[of "Suc i"] show "matches b p ((row - dRow) - int i * dRow) ((col - dCol) - int i * dCol)"
        by (simp add: algebra_simps)
    qed
    from assms show "\<not> matches b p ((row + dRow) + int n * dRow) ((col + dCol) + int n * dCol)"
      unfolding runs_iff by (simp add: algebra_simps)
    from assms show "\<not> matches b p ((row - dRow) - int m * dRow) ((col - dCol) - int m * dCol)"
      unfolding runs_iff by (simp add: algebra_simps)
  qed
  let ?P = "map (\<lambda>i. ((row + dRow) + int i * dRow, (col + dCol) + int i * dCol)) [0..<n]"
  let ?N = "map (\<lambda>i. ((row - dRow) - int i * dRow, (col - dCol) - int i * dCol)) [0..<m]"
  have gcp: "getConnectedPositions b row col dRow dCol p = Some (rev ?N @ [(row, col)] @ ?P)"
    unfolding getConnectedPositions_def
    by (simp add: pushLoop_run[OF pos posStop] unshiftLoop_run[OF neg negStop])
  have "rev ?N @ [(row, col)] @ ?P = line row col dRow dCol m n"
  proof (rule nth_equalityI)
    show "length (rev ?N @ [(row, col)] @ ?P) = length (line row col dRow dCol m n)"
      by (simp add: line_def)
  next
    fix k assume "k < length (rev ?N @ [(row, col)] @ ?P)"
    then have k: "k < m + n + 1" by simp
    consider "k < m" | "k = m" | "m < k" by linarith
    then show "(rev ?N @ [(row, col)] @ ?P) ! k = line row col dRow dCol m n ! k"
    proof cases
      case 1
      then show ?thesis using k
        by (simp add: line_def nth_append rev_nth algebra_simps of_nat_diff del: upt_Suc)
    next
      case 2
      then show ?thesis using k by (simp add: line_def nth_append del: upt_Suc)
    next
      case 3
      then obtain j where j: "k = Suc (m + j)" "j < n"
        using k less_iff_Suc_add[of m k] by auto
      then show ?thesis
        by (simp add: line_def nth_append algebra_simps del: upt_Suc)
    qed
  qed
  with gcp show ?thesis by simp
qed

lemma length_line: "length (line row col dRow dCol m n) = m + n + 1"
  by (simp add: line_def)

lemma run_exists:
  assumes "dRow \<noteq> 0 \<or> dCol \<noteq> 0"
  shows "\<exists>n. (\<forall>i. 1 \<le> i \<and> i \<le> n \<longrightarrow> matches b p (row + int i * dRow) (col + int i * dCol)) \<and>
             \<not> matches b p (row + int (Suc n) * dRow) (col + int (Suc n) * dCol)"
proof -
  let ?P = "\<lambda>k. \<not> matches b p (row + int (Suc k) * dRow) (col + int (Suc k) * dCol)"
  have "?P 0 \<or> ?P 6 \<or> ?P 7"
    using assms by (auto simp: matches_def isValidPosition_def ROWS_def COLS_def)
  then have ex: "\<exists>k. ?P k" by blast
  define n where "n = (LEAST k. ?P k)"
  have stop: "?P n" unfolding n_def using ex by (rule LeastI_ex)
  have "matches b p (row + int i * dRow) (col + int i * dCol)" if "1 \<le> i \<and> i \<le> n" for i
  proof -
    from that have j: "i = Suc (i - 1)" "i - 1 < n" by linarith+
    from not_less_Least[of "i - 1" ?P] j(2) have "\<not> ?P (i - 1)" unfolding n_def by blast
    with j(1) show ?thesis by simp
  qed
  with stop show ?thesis by blast
qed

lemma runs_exist:
  assumes "dRow \<noteq> 0 \<or> dCol \<noteq> 0"
  shows "\<exists>m n. runs b p row col dRow dCol m n"
proof -
  from run_exists[OF assms, of b p row col] obtain n where
    n: "\<forall>i. 1 \<le> i \<and> i \<le> n \<longrightarrow> matches b p (row + int i * dRow) (col + int i * dCol)"
       "\<not> matches b p (row + int (Suc n) * dRow) (col + int (Suc n) * dCol)" by blast
  from assms have "- dRow \<noteq> 0 \<or> - dCol \<noteq> 0" by simp
  from run_exists[OF this, of b p row col] obtain m where
    m: "\<forall>i. 1 \<le> i \<and> i \<le> m \<longrightarrow> matches b p (row + int i * - dRow) (col + int i * - dCol)"
       "\<not> matches b p (row + int (Suc m) * - dRow) (col + int (Suc m) * - dCol)" by blast
  from n m have "runs b p row col dRow dCol m n"
    unfolding runs_iff by simp
  then show ?thesis by blast
qed

lemma line_member:
  assumes "runs b p row col dRow dCol m n" and "pos \<in> set (line row col dRow dCol m n)"
  shows "pos = (row, col) \<or> matches b p (fst pos) (snd pos)"
proof -
  from assms(2) have "pos \<in> (\<lambda>k. (row + (int k - int m) * dRow, col + (int k - int m) * dCol)) ` {0..<m + n + 1}"
    unfolding line_def by (simp del: upt_Suc)
  then obtain k where k: "k < m + n + 1"
    "pos = (row + (int k - int m) * dRow, col + (int k - int m) * dCol)"
    by force
  from assms(1) have a: "\<And>i. 1 \<le> i \<and> i \<le> n \<Longrightarrow> matches b p (row + int i * dRow) (col + int i * dCol)"
      and c: "\<And>i. 1 \<le> i \<and> i \<le> m \<Longrightarrow> matches b p (row - int i * dRow) (col - int i * dCol)"
      unfolding runs_iff by blast+
  consider "k < m" | "k = m" | "m < k" by linarith
  then show ?thesis
  proof cases
    case 1
    then have "1 \<le> m - k \<and> m - k \<le> m" by linarith
    from c[OF this] 1 k show ?thesis by (simp add: of_nat_diff algebra_simps)
  next
    case 2
    with k show ?thesis by simp
  next
    case 3
    with k(1) have "1 \<le> k - m \<and> k - m \<le> n" by linarith
    from a[OF this] 3 k show ?thesis by (simp add: of_nat_diff algebra_simps)
  qed
qed

lemma origin_in_line: "(row, col) \<in> set (line row col dRow dCol m n)"
proof -
  have "(row, col) = (\<lambda>k. (row + (int k - int m) * dRow, col + (int k - int m) * dCol)) m"
    by simp
  moreover have "m \<in> {0..<m + n + 1}" by simp
  ultimately have "(row, col) \<in> (\<lambda>k. (row + (int k - int m) * dRow, col + (int k - int m) * dCol)) ` {0..<m + n + 1}"
    by (rule image_eqI)
  then show ?thesis unfolding line_def by (simp del: upt_Suc)
qed

lemma checkWin_runs:
  assumes "runs b p row col 0 1 mh nh" and "runs b p row col 1 0 mv nv"
    and "runs b p row col 1 1 md nd" and "runs b p row col 1 (- 1) ma na"
  shows "checkWin b row col p = Some (
           if mh + nh + 1 \<ge> 4 then Some \<lparr>player = p, positions = take 4 (line row col 0 1 mh nh)\<rparr>
           else if mv + nv + 1 \<ge> 4 then Some \<lparr>player = p, positions = take 4 (line row col 1 0 mv nv)\<rparr>
           else if md + nd + 1 \<ge> 4 then Some \<lparr>player = p, positions = take 4 (line row col 1 1 md nd)\<rparr>
           else if ma + na + 1 \<ge> 4 then Some \<lparr>player = p, positions = take 4 (line row col 1 (- 1) ma na)\<rparr>
           else None)"
  unfolding checkWin_def DIRECTIONS_def
  by (simp add: getConnectedPositions_runs[OF assms(1)] getConnectedPositions_runs[OF assms(2)]
      getConnectedPositions_runs[OF assms(3)] getConnectedPositions_runs[OF assms(4)] length_line)

lemma checkWin_total: "\<exists>res. checkWin b row col p = Some res"
proof -
  obtain mh nh where h: "runs b p row col 0 1 mh nh" using runs_exist[of 0 1 b p row col] by fastforce
  obtain mv nv where v: "runs b p row col 1 0 mv nv" using runs_exist[of 1 0 b p row col] by fastforce
  obtain md nd where d: "runs b p row col 1 1 md nd" using runs_exist[of 1 1 b p row col] by fastforce
  obtain ma na where a: "runs b p row col 1 (- 1) ma na" using runs_exist[of 1 "- 1" b p row col] by fastforce
  from checkWin_runs[OF h v d a] show ?thesis by blast
qed

lemma checkWin_positions:
  assumes "checkWin b row col p = Some (Some w)" and "pos \<in> set (positions w)"
  shows "pos = (row, col) \<or> matches b p (fst pos) (snd pos)"
proof -
  obtain mh nh where h: "runs b p row col 0 1 mh nh" using runs_exist[of 0 1 b p row col] by fastforce
  obtain mv nv where v: "runs b p row col 1 0 mv nv" using runs_exist[of 1 0 b p row col] by fastforce
  obtain md nd where d: "runs b p row col 1 1 md nd" using runs_exist[of 1 1 b p row col] by fastforce
  obtain ma na where a: "runs b p row col 1 (- 1) ma na" using runs_exist[of 1 "- 1" b p row col] by fastforce
  from checkWin_runs[OF h v d a] assms
  have "pos \<in> set (line row col 0 1 mh nh) \<or> pos \<in> set (line row col 1 0 mv nv) \<or>
        pos \<in> set (line row col 1 1 md nd) \<or> pos \<in> set (line row col 1 (- 1) ma na)"
    by (auto split: if_splits dest: in_set_takeD)
  with line_member[OF h] line_member[OF v] line_member[OF d] line_member[OF a]
  show ?thesis by blast
qed

lemma exampleThree_wf: "wf_board exampleThree"
  by (simp add: exampleThree_def wf_board_def board_consts)

lemma matches_setCell:
  assumes "wf_board b" and "(r, c) \<noteq> (row, col)"
  shows "matches (setCell b row col v) p r c = matches b p r c"
proof (cases "row \<ge> 0 \<and> row < int ROWS \<and> col \<ge> 0 \<and> col < int COLS")
  case False
  then have "setCell b row col v = b" unfolding setCell_def by (rule if_not_P)
  then show ?thesis by simp
next
  case True
  then have s: "setCell b row col v = b[nat row := (b ! nat row)[nat col := v]]"
    unfolding setCell_def by (rule if_P)
  from True have "nat row < ROWS" "nat col < COLS" by auto
  from getCell_update[OF assms(1) this, of v r c] True assms(2)
  show ?thesis unfolding s by (auto simp: matches_def)
qed

lemma runs_setCell:
  assumes "wf_board b" and "dRow \<noteq> 0 \<or> dCol \<noteq> 0"
  shows "runs (setCell b row col v) p row col dRow dCol m n = runs b p row col dRow dCol m n"
proof -
  let ?b = "setCell b row col v"
  have pos: "matches ?b p (row + int i * dRow) (col + int i * dCol)
        = matches b p (row + int i * dRow) (col + int i * dCol)" if "1 \<le> i" for i
    using assms(2) that by (intro matches_setCell[OF assms(1)]) auto
  have neg: "matches ?b p (row - int i * dRow) (col - int i * dCol)
        = matches b p (row - int i * dRow) (col - int i * dCol)" if "1 \<le> i" for i
    using assms(2) that by (intro matches_setCell[OF assms(1)]) auto
  have A: "list_all (\<lambda>i. matches ?b p (row + int i * dRow) (col + int i * dCol)) [1..<Suc n]
         = list_all (\<lambda>i. matches b p (row + int i * dRow) (col + int i * dCol)) [1..<Suc n]"
    by (rule list_all_cong) (simp_all add: pos del: upt_Suc)
  have B: "list_all (\<lambda>i. matches ?b p (row - int i * dRow) (col - int i * dCol)) [1..<Suc m]
         = list_all (\<lambda>i. matches b p (row - int i * dRow) (col - int i * dCol)) [1..<Suc m]"
    by (rule list_all_cong) (simp_all add: neg del: upt_Suc)
  have C: "matches ?b p (row + int (Suc n) * dRow) (col + int (Suc n) * dCol)
         = matches b p (row + int (Suc n) * dRow) (col + int (Suc n) * dCol)"
    by (rule pos) simp
  have D: "matches ?b p (row - int (Suc m) * dRow) (col - int (Suc m) * dCol)
         = matches b p (row - int (Suc m) * dRow) (col - int (Suc m) * dCol)"
    by (rule neg) simp
  show ?thesis unfolding runs_def by (simp only: A B C D)
qed

lemma checkWin_setCell:
  assumes "wf_board b"
  shows "checkWin (setCell b row col v) row col p = checkWin b row col p"
proof -
  obtain mh nh where h: "runs b p row col 0 1 mh nh" using runs_exist[of 0 1 b p row col] by fastforce
  obtain mv nv where v: "runs b p row col 1 0 mv nv" using runs_exist[of 1 0 b p row col] by fastforce
  obtain md nd where d: "runs b p row col 1 1 md nd" using runs_exist[of 1 1 b p row col] by fastforce
  obtain ma na where a: "runs b p row col 1 (- 1) ma na" using runs_exist[of 1 "- 1" b p row col] by fastforce
  have h': "runs (setCell b row col v) p row col 0 1 mh nh" using h runs_setCell[OF assms] by simp
  have v': "runs (setCell b row col v) p row col 1 0 mv nv" using v runs_setCell[OF assms] by simp
  have d': "runs (setCell b row col v) p row col 1 1 md nd" using d runs_setCell[OF assms] by simp
  have a': "runs (setCell b row col v) p row col 1 (- 1) ma na" using a runs_setCell[OF assms] by simp
  show ?thesis by (simp only: checkWin_runs[OF h v d a] checkWin_runs[OF h' v' d' a'])
qed

lemma getConnectedPositions_origin:
  assumes "(dRow, dCol) \<in> set DIRECTIONS"
  shows "\<exists>ps. getConnectedPositions b row col dRow dCol p = Some ps \<and> (row, col) \<in> set ps"
proof -
  from assms have "dRow \<noteq> 0 \<or> dCol \<noteq> 0" by (auto simp: DIRECTIONS_def)
  from runs_exist[OF this, of b p row col] obtain m n where "runs b p row col dRow dCol m n" by blast
  from getConnectedPositions_runs[OF this] origin_in_line show ?thesis by blast
qed

lemma exampleThree_win_at_empty:
  "checkWin exampleThree 0 3 PLAYER_1 =
     Some (Some \<lparr>player = PLAYER_1, positions = [(0, 0), (0, 1), (0, 2), (0, 3)]\<rparr>)"
  by (simp add: checkWin_def DIRECTIONS_def getConnectedPositions_def pushLoop.simps unshiftLoop.simps
      matches_def isValidPosition_def getCell_def exampleThree_def board_consts)

section \<open>Placement (claims C2 and C9)\<close>

text \<open>Claim C2. On a board of the regular shape and for a side other than \<open>EMPTY\<close>: when
  the column is not full, \<open>dropToken\<close> returns a row inside the grid, that row was the lowest
  empty cell of the column, the cell now holds the side, and every other cell is as before;
  when the column is full (or outside the grid), it returns \<open>-1\<close> and the board is the same.\<close>

theorem dropToken_places_one_token:
  assumes "wf_board b" and "side \<noteq> EMPTY"
  shows "(\<not> isColumnFull b c \<longrightarrow>
           (\<exists>row b'. dropToken b c side = (row, b') \<and> 0 \<le> row \<and> row < int ROWS \<and>
              wf_board b' \<and>
              getCell b row c = Some EMPTY \<and> getCell b' row c = Some side \<and>
              (\<forall>r. 0 \<le> r \<and> r < row \<longrightarrow> getCell b r c \<noteq> Some EMPTY) \<and>
              (\<forall>r k. (r, k) \<noteq> (row, c) \<longrightarrow> getCell b' r k = getCell b r k)))
       \<and> (isColumnFull b c \<longrightarrow> dropToken b c side = (- 1, b))"
proof (intro conjI impI)
  assume "isColumnFull b c"
  then show "dropToken b c side = (- 1, b)"
    by (simp add: isColumnFull_def dropToken_def)
next
  assume "\<not> isColumnFull b c"
  then have ne: "findLowestRow b c \<noteq> - 1" by (simp add: isColumnFull_def)
  with findLowestRow_cases[of b c] obtain row where
    c: "0 \<le> c" "c < int COLS" and row: "row < ROWS" "findLowestRow b c = int row"
    "b ! row ! nat c = EMPTY" "\<forall>r<row. b ! r ! nat c \<noteq> EMPTY" by blast
  let ?b' = "b[row := (b ! row)[nat c := side]]"
  have d: "dropToken b c side = (int row, ?b')"
    using row(2) by (simp add: dropToken_def)
  have nc: "nat c < COLS" using c by simp
  have upd: "getCell ?b' r k = (if r = int row \<and> k = c then Some side else getCell b r k)" for r k
    using getCell_update[OF assms(1) row(1) nc, of side r k] c by auto
  have below: "getCell b r c \<noteq> Some EMPTY" if "0 \<le> r \<and> r < int row" for r
  proof -
    from that have "nat r < row" by linarith
    with row(4) have "b ! nat r ! nat c \<noteq> EMPTY" by blast
    with that row(1) c show ?thesis by (simp add: getCell_def)
  qed
  have "getCell b (int row) c = Some EMPTY"
    using row c by (simp add: getCell_def)
  with d row(1) upd below wf_board_update[OF assms(1)]
  show "\<exists>row b'. dropToken b c side = (row, b') \<and> 0 \<le> row \<and> row < int ROWS \<and>
              wf_board b' \<and>
              getCell b row c = Some EMPTY \<and> getCell b' row c = Some side \<and>
              (\<forall>r. 0 \<le> r \<and> r < row \<longrightarrow> getCell b r c \<noteq> Some EMPTY) \<and>
              (\<forall>r k. (r, k) \<noteq> (row, c) \<longrightarrow> getCell b' r k = getCell b r k)"
    by (intro exI[of _ "int row"] exI[of _ ?b']) auto
qed

theorem dropToken_places_one_token_witness:
  "wf_board exampleTower \<and> PLAYER_2 \<noteq> EMPTY \<and>
   \<not> isColumnFull exampleTower 1 \<and> isColumnFull exampleTower 0 \<and>
   (\<exists>row b'. dropToken exampleTower 1 PLAYER_2 = (row, b') \<and> 0 \<le> row \<and> row < int ROWS \<and>
      wf_board b' \<and>
      getCell exampleTower row 1 = Some EMPTY \<and> getCell b' row 1 = Some PLAYER_2 \<and>
      (\<forall>r. 0 \<le> r \<and> r < row \<longrightarrow> getCell exampleTower r 1 \<noteq> Some EMPTY) \<and>
      (\<forall>r k. (r, k) \<noteq> (row, 1) \<longrightarrow> getCell b' r k = getCell exampleTower r k)) \<and>
   dropToken exampleTower 0 PLAYER_2 = (- 1, exampleTower)"
proof -
  have ne: "PLAYER_2 \<noteq> EMPTY" by (simp add: board_consts)
  have open1: "\<not> isColumnFull exampleTower 1"
    by (simp add: exampleTower_def isColumnFull_def findLowestRow_def board_consts upt_rec)
  have full0: "isColumnFull exampleTower 0"
    by (simp add: exampleTower_def isColumnFull_def findLowestRow_def board_consts upt_rec)
  from dropToken_places_one_token[OF exampleTower_wf ne, of 1]
       dropToken_places_one_token[OF exampleTower_wf ne, of 0]
       exampleTower_wf ne open1 full0
  show ?thesis by blast
qed

text \<open>Claim C9. On a board of the regular shape that satisfies gravity, the board after
  \<open>dropToken\<close> has the regular shape and satisfies gravity again, and every cell that was
  occupied before holds the same token afterwards (so none went back to \<open>EMPTY\<close>).\<close>

theorem dropToken_preserves_gravity:
  assumes "wf_board b" and "gravity b" and "dropToken b col side = (row, b')"
  shows "wf_board b' \<and> gravity b' \<and>
         (\<forall>r k. getCell b r k \<noteq> None \<and> getCell b r k \<noteq> Some EMPTY \<longrightarrow>
                 getCell b' r k = getCell b r k)"
proof (cases "findLowestRow b col = - 1")
  case True
  with assms show ?thesis by (simp add: dropToken_def)
next
  case False
  with findLowestRow_cases[of b col] obtain lr where
    c: "0 \<le> col" "col < int COLS" and lr: "lr < ROWS" "findLowestRow b col = int lr"
    "b ! lr ! nat col = EMPTY" "\<forall>r<lr. b ! r ! nat col \<noteq> EMPTY" by blast
  have b': "b' = b[lr := (b ! lr)[nat col := side]]"
    using lr(2) assms(3) by (simp add: dropToken_def)
  have nc: "nat col < COLS" using c by simp
  have cell: "b' ! r ! k = (if r = lr \<and> k = nat col then side else b ! r ! k)"
    if "r < ROWS" "k < COLS" for r k
    unfolding b' using nth_board_update[OF assms(1) lr(1) nc that] .
  have g: "b ! r ! k \<noteq> EMPTY" if "k < COLS" "r' < ROWS" "b ! r' ! k \<noteq> EMPTY" "r < r'" for r r' k
    using assms(2) that unfolding gravity_iff by blast
  have "gravity b'"
    unfolding gravity_iff
  proof (intro allI impI)
    fix k r' r assume k: "k < COLS" and r': "r' < ROWS" and ne: "b' ! r' ! k \<noteq> EMPTY" and r: "r < r'"
    from r r' have rr: "r < ROWS" by simp
    show "b' ! r ! k \<noteq> EMPTY"
    proof (cases "k = nat col")
      case False
      with cell[OF r' k] cell[OF rr k] ne g[OF k r' _ r] show ?thesis by auto
    next
      case True
      show ?thesis
      proof (cases "r' = lr")
        case True
        with r lr(4) \<open>k = nat col\<close> cell[OF rr k] show ?thesis by auto
      next
        case False
        with ne cell[OF r' k] have "b ! r' ! k \<noteq> EMPTY" by auto
        from g[OF k r' this] lr(3) True r cell[OF rr k] show ?thesis by (cases "r = lr") auto
      qed
    qed
  qed
  moreover have "getCell b' r k = getCell b r k"
    if "getCell b r k \<noteq> None \<and> getCell b r k \<noteq> Some EMPTY" for r k
    using getCell_update[OF assms(1) lr(1) nc, of side r k] that lr(3) c lr(1)
    unfolding b' by (auto simp: getCell_def split: if_splits)
  ultimately show ?thesis using wf_board_update[OF assms(1)] b' by blast
qed

theorem dropToken_preserves_gravity_witness:
  "wf_board exampleTower \<and> gravity exampleTower \<and>
   dropToken exampleTower 1 PLAYER_1 = (1, (exampleTower[1 := [1, 1, 0, 0, 0, 0, 0]])) \<and>
   wf_board (exampleTower[1 := [1, 1, 0, 0, 0, 0, 0]]) \<and>
   gravity (exampleTower[1 := [1, 1, 0, 0, 0, 0, 0]]) \<and>
   getCell exampleTower 5 0 = Some PLAYER_1 \<and>
   getCell (exampleTower[1 := [1, 1, 0, 0, 0, 0, 0]]) 5 0 = getCell exampleTower 5 0"
proof -
  have d: "dropToken exampleTower 1 PLAYER_1 = (1, (exampleTower[1 := [1, 1, 0, 0, 0, 0, 0]]))"
    by (simp add: exampleTower_def dropToken_def findLowestRow_def board_consts upt_rec)
  have occ: "getCell exampleTower 5 0 = Some PLAYER_1"
    by (simp add: exampleTower_def getCell_def board_consts)
  then have "getCell exampleTower 5 0 \<noteq> None \<and> getCell exampleTower 5 0 \<noteq> Some EMPTY"
    by (simp add: board_consts)
  with dropToken_preserves_gravity[OF exampleTower_wf exampleTower_gravity d]
       exampleTower_wf exampleTower_gravity d occ
  show ?thesis by blast
qed


section \<open>Win detection (claims C3, C4 and C10)\<close>

text \<open>Claim C3. For every board, coordinate and side, \<open>checkWin\<close> returns, and along each
  of the four axes (0,1), (1,0), (1,1), (1,-1) there are the numbers \<open>m\<close> and \<open>n\<close> of
  contiguous cells equal to the side on the negative and on the positive side of the
  coordinate; the result is the first four coordinates, in negative-to-positive order, of
  the first axis in that order whose total \<open>m + n + 1\<close> reaches 4, and \<open>null\<close> when no
  axis reaches 4.\<close>

theorem checkWin_first_four_of_first_axis:
  "\<exists>mh nh mv nv md nd ma na.
     runs b p row col 0 1 mh nh \<and> runs b p row col 1 0 mv nv \<and>
     runs b p row col 1 1 md nd \<and> runs b p row col 1 (- 1) ma na \<and>
     checkWin b row col p = Some (
       if mh + nh + 1 \<ge> 4 then Some \<lparr>player = p, positions = take 4 (line row col 0 1 mh nh)\<rparr>
       else if mv + nv + 1 \<ge> 4 then Some \<lparr>player = p, positions = take 4 (line row col 1 0 mv nv)\<rparr>
       else if md + nd + 1 \<ge> 4 then Some \<lparr>player = p, positions = take 4 (line row col 1 1 md nd)\<rparr>
       else if ma + na + 1 \<ge> 4 then Some \<lparr>player = p, positions = take 4 (line row col 1 (- 1) ma na)\<rparr>
       else None)"
proof -
  obtain mh nh where h: "runs b p row col 0 1 mh nh" using runs_exist[of 0 1 b p row col] by fastforce
  obtain mv nv where v: "runs b p row col 1 0 mv nv" using runs_exist[of 1 0 b p row col] by fastforce
  obtain md nd where d: "runs b p row col 1 1 md nd" using runs_exist[of 1 1 b p row col] by fastforce
  obtain ma na where a: "runs b p row col 1 (- 1) ma na" using runs_exist[of 1 "- 1" b p row col] by fastforce
  from h v d a checkWin_runs[OF h v d a] show ?thesis by blast
qed

text \<open>Claim C10. On a board of the regular shape, \<open>checkWin\<close> gives the same result
  whatever value is written into the cell \<open>(row, col)\<close> first, so it never depends on that
  cell; along each of the four axes the collected coordinates contain \<open>(row, col)\<close>; every
  coordinate of a returned line other than \<open>(row, col)\<close> holds the queried side; and there
  is a board with an in-grid coordinate whose cell is \<open>EMPTY\<close> for which \<open>checkWin\<close>
  returns a line through that coordinate.\<close>

theorem checkWin_ignores_origin_cell:
  assumes "wf_board b"
  shows "checkWin (setCell b row col v) row col p = checkWin b row col p \<and>
         (\<forall>d \<in> set DIRECTIONS. \<exists>ps. getConnectedPositions b row col (fst d) (snd d) p = Some ps \<and>
              (row, col) \<in> set ps) \<and>
         (\<forall>w pos. checkWin b row col p = Some (Some w) \<and> pos \<in> set (positions w) \<and>
              pos \<noteq> (row, col) \<longrightarrow> getCell b (fst pos) (snd pos) = Some p) \<and>
         (\<exists>b' r c w. wf_board b' \<and> isValidPosition r c \<and> getCell b' r c = Some EMPTY \<and>
              checkWin b' r c PLAYER_1 = Some (Some w) \<and> (r, c) \<in> set (positions w))"
proof (intro conjI)
  show "checkWin (setCell b row col v) row col p = checkWin b row col p"
    by (rule checkWin_setCell[OF assms])
  show "\<forall>d \<in> set DIRECTIONS. \<exists>ps. getConnectedPositions b row col (fst d) (snd d) p = Some ps \<and>
              (row, col) \<in> set ps"
    using getConnectedPositions_origin by auto
  show "\<forall>w pos. checkWin b row col p = Some (Some w) \<and> pos \<in> set (positions w) \<and>
              pos \<noteq> (row, col) \<longrightarrow> getCell b (fst pos) (snd pos) = Some p"
  proof (intro allI impI)
    fix w pos
    assume a: "checkWin b row col p = Some (Some w) \<and> pos \<in> set (positions w) \<and> pos \<noteq> (row, col)"
    then have "pos = (row, col) \<or> matches b p (fst pos) (snd pos)"
      using checkWin_positions[of b row col p w pos] by blast
    with a show "getCell b (fst pos) (snd pos) = Some p" by (simp add: matches_def)
  qed
  have "isValidPosition 0 3 \<and> getCell exampleThree 0 3 = Some EMPTY"
    by (simp add: isValidPosition_def getCell_def exampleThree_def board_consts)
  with exampleThree_wf exampleThree_win_at_empty
  show "\<exists>b' r c w. wf_board b' \<and> isValidPosition r c \<and> getCell b' r c = Some EMPTY \<and>
              checkWin b' r c PLAYER_1 = Some (Some w) \<and> (r, c) \<in> set (positions w)"
    by (intro exI[of _ exampleThree] exI[of _ 0] exI[of _ 3]
        exI[of _ "\<lparr>player = PLAYER_1, positions = [(0, 0), (0, 1), (0, 2), (0, 3)]\<rparr>"]) simp
qed

theorem checkWin_ignores_origin_cell_witness:
  "wf_board exampleThree \<and>
   checkWin (setCell exampleThree 0 3 PLAYER_2) 0 3 PLAYER_1 = checkWin exampleThree 0 3 PLAYER_1 \<and>
   checkWin exampleThree 0 3 PLAYER_1 =
     Some (Some \<lparr>player = PLAYER_1, positions = [(0, 0), (0, 1), (0, 2), (0, 3)]\<rparr>) \<and>
   getCell exampleThree 0 3 = Some EMPTY \<and>
   getCell exampleThree 0 2 = Some PLAYER_1"
proof -
  have "(0, 2) \<in> set (positions \<lparr>player = PLAYER_1, positions = [(0, 0), (0, 1), (0, 2), (0, 3)]\<rparr>)
        \<and> ((0::int), (2::int)) \<noteq> (0, 3)" by simp
  with checkWin_ignores_origin_cell[OF exampleThree_wf, of 0 3 PLAYER_2 PLAYER_1]
       exampleThree_win_at_empty
  have "checkWin (setCell exampleThree 0 3 PLAYER_2) 0 3 PLAYER_1 = checkWin exampleThree 0 3 PLAYER_1"
    and "getCell exampleThree (fst ((0::int), (2::int))) (snd ((0::int), (2::int))) = Some PLAYER_1"
    by blast+
  moreover have "getCell exampleThree 0 3 = Some EMPTY"
    by (simp add: getCell_def exampleThree_def board_consts)
  ultimately show ?thesis using exampleThree_wf exampleThree_win_at_empty by simp
qed

text \<open>Claim C4, as stated, fails: with three tokens of player 1 at the left end of the
  bottom row, \<open>checkWin\<close> called for the coordinate \<open>(0, -1)\<close>, which is outside the grid,
  returns a line whose first coordinate is \<open>(0, -1)\<close>.\<close>

theorem checkWin_out_of_grid_counterexample:
  "\<not> isValidPosition 0 (- 1) \<and>
   checkWin exampleThree 0 (- 1) PLAYER_1 =
     Some (Some \<lparr>player = PLAYER_1, positions = [(0, - 1), (0, 0), (0, 1), (0, 2)]\<rparr>)"
  by (simp add: checkWin_def DIRECTIONS_def getConnectedPositions_def pushLoop.simps unshiftLoop.simps
      matches_def isValidPosition_def getCell_def exampleThree_def board_consts)

text \<open>Claim C4, amended. For a coordinate outside the grid \<open>checkWin\<close> returns (it is not
  an error), and the walks stop at the boundary: every coordinate of a returned line other
  than the coordinate passed in lies inside the grid and holds the queried side. The
  coordinate passed in is collected without a bounds check.\<close>

theorem checkWin_out_of_grid:
  assumes "\<not> isValidPosition row col"
  shows "\<exists>res. checkWin b row col p = Some res \<and>
           (\<forall>w pos. res = Some w \<and> pos \<in> set (positions w) \<and> pos \<noteq> (row, col) \<longrightarrow>
               isValidPosition (fst pos) (snd pos) \<and> getCell b (fst pos) (snd pos) = Some p)"
proof -
  from checkWin_total[of b row col p] obtain res where res: "checkWin b row col p = Some res" by blast
  have "isValidPosition (fst pos) (snd pos) \<and> getCell b (fst pos) (snd pos) = Some p"
    if "res = Some w \<and> pos \<in> set (positions w) \<and> pos \<noteq> (row, col)" for w pos
  proof -
    from that res have "pos = (row, col) \<or> matches b p (fst pos) (snd pos)"
      using checkWin_positions[of b row col p w pos] by blast
    with that show ?thesis by (simp add: matches_def)
  qed
  with res show ?thesis by blast
qed

theorem checkWin_out_of_grid_witness:
  "\<not> isValidPosition 0 (- 1) \<and>
   (\<exists>res. checkWin exampleThree 0 (- 1) PLAYER_1 = Some res \<and>
      (\<forall>w pos. res = Some w \<and> pos \<in> set (positions w) \<and> pos \<noteq> (0, - 1) \<longrightarrow>
          isValidPosition (fst pos) (snd pos) \<and>
          getCell exampleThree (fst pos) (snd pos) = Some PLAYER_1))"
proof -
  have out: "\<not> isValidPosition 0 (- 1)" by (simp add: isValidPosition_def)
  from checkWin_out_of_grid[OF out, of exampleThree PLAYER_1] out show ?thesis by blast
qed

section \<open>Facts about the engine's helpers and the example positions\<close>

lemmas ai_consts = AI_PLAYER_def HUMAN_PLAYER_def WIN_def THREE_IN_ROW_def TWO_IN_ROW_def
  CENTER_BONUS_def BLOCK_THREE_def BLOCK_TWO_def newAI_def

lemmas start_defs = horizontalStarts_def verticalStarts_def diagonalUpStarts_def diagonalDownStarts_def

lemma exampleDraw_no_winner: "checkWinner exampleDraw = None"
  by (simp add: checkWinner_def start_defs fourEqual_def getCell_def exampleDraw_def board_consts upt_rec)

lemma exampleThree_no_winner: "checkWinner exampleThree = None"
  by (simp add: checkWinner_def start_defs fourEqual_def getCell_def exampleThree_def board_consts upt_rec)

lemma exampleFour_winner: "p \<noteq> 0 \<Longrightarrow> checkWinner (exampleFour p) = Some p"
  by (simp add: checkWinner_def start_defs fourEqual_def getCell_def exampleFour_def board_consts upt_rec)

lemma exampleDraw_full: "isBoardFull exampleDraw"
  by (simp add: isBoardFull_def isColumnFull_def findLowestRow_def exampleDraw_def board_consts upt_rec)

lemma exampleThree_not_full: "\<not> isBoardFull exampleThree"
  by (simp add: isBoardFull_def isColumnFull_def findLowestRow_def exampleThree_def board_consts upt_rec)

lemma isColumnFull_outside: "c < 0 \<or> c \<ge> int COLS \<Longrightarrow> isColumnFull b c"
  by (auto simp: isColumnFull_def findLowestRow_def)

lemma set_AI_getValidMoves:
  "set (AI_getValidMoves b) = {c. 0 \<le> c \<and> c < int COLS \<and> \<not> isColumnFull b c}"
proof -
  have "set (AI_getValidMoves b) = int ` {col. col < COLS \<and> \<not> isColumnFull b (int col)}"
    by (auto simp: AI_getValidMoves_def)
  also have "\<dots> = {c. 0 \<le> c \<and> c < int COLS \<and> \<not> isColumnFull b c}"
  proof (intro set_eqI iffI)
    fix c assume "c \<in> int ` {col. col < COLS \<and> \<not> isColumnFull b (int col)}"
    then show "c \<in> {c. 0 \<le> c \<and> c < int COLS \<and> \<not> isColumnFull b c}" by auto
  next
    fix c assume "c \<in> {c. 0 \<le> c \<and> c < int COLS \<and> \<not> isColumnFull b c}"
    then have "nat c < COLS \<and> \<not> isColumnFull b (int (nat c))" "c = int (nat c)" by auto
    then show "c \<in> int ` {col. col < COLS \<and> \<not> isColumnFull b (int col)}" by blast
  qed
  finally show ?thesis .
qed

lemma distinct_AI_getValidMoves: "distinct (AI_getValidMoves b)"
  by (simp add: AI_getValidMoves_def distinct_map)

lemma singleton_list: "distinct xs \<Longrightarrow> set xs = {c} \<Longrightarrow> xs = [c]"
proof -
  assume d: "distinct xs" and s: "set xs = {c}"
  from d have "length xs = card (set xs)" by (simp add: distinct_card)
  with s have "length xs = 1" by simp
  then obtain x where "xs = [x]" by (cases xs) auto
  with s show ?thesis by simp
qed

lemma small_int_cases: "0 \<le> c \<and> c < int COLS \<Longrightarrow> c = 0 \<or> c = 1 \<or> c = 2 \<or> c = 3 \<or> c = 4 \<or> c = 5 \<or> c = 6"
  by (auto simp: COLS_def)

lemma orderMoves_all: "orderMoves [0, 1, 2, 3, 4, 5, 6] = [3, 2, 4, 1, 5, 0, 6]"
  by (simp add: orderMoves_def COLS_def)

lemma orderMoves_valid:
  "orderMoves (AI_getValidMoves b) = filter (\<lambda>c. \<not> isColumnFull b c) [3, 2, 4, 1, 5, 0, 6]"
proof -
  have "AI_getValidMoves b = filter (\<lambda>c. \<not> isColumnFull b c) (map int [0..<COLS])"
    by (simp add: AI_getValidMoves_def filter_map o_def)
  also have "map int [0..<COLS] = [0, 1, 2, 3, 4, 5, 6]"
    by (simp add: COLS_def upt_rec)
  finally have "orderMoves (AI_getValidMoves b)
      = filter (\<lambda>c. \<not> isColumnFull b c) (orderMoves [0, 1, 2, 3, 4, 5, 6])"
    unfolding orderMoves_def by (simp only: filter_sort)
  then show ?thesis by (simp only: orderMoves_all)
qed

lemma orderMoves_nonempty: "\<not> isBoardFull b \<Longrightarrow> orderMoves (AI_getValidMoves b) \<noteq> []"
proof -
  assume "\<not> isBoardFull b"
  then have "filter (\<lambda>col. \<not> isColumnFull b (int col)) [0..<COLS] \<noteq> []"
    by (auto simp: isBoardFull_def find_None_iff filter_empty_conv)
  then have "AI_getValidMoves b \<noteq> []" by (simp add: AI_getValidMoves_def)
  then have "length (orderMoves (AI_getValidMoves b)) \<noteq> 0" by (simp add: orderMoves_def)
  then show ?thesis by simp
qed

lemma max_Fin: "m \<noteq> PosInf \<Longrightarrow> \<exists>z. max m (Fin y) = Fin z"
  by (cases m) (simp_all add: max_def)

lemma min_Fin: "m \<noteq> NegInf \<Longrightarrow> \<exists>z. min m (Fin y) = Fin z"
  by (cases m) (simp_all add: min_def)

lemma minimax_finite:
  "\<exists>x. minimax ai b depth alpha beta isMaximizing = Fin x"
  "maxScore \<noteq> PosInf \<longrightarrow> (cols = [] \<longrightarrow> maxScore \<noteq> NegInf) \<longrightarrow>
     (\<exists>x. maxLoop ai' b' d cols maxScore alpha' beta' = Fin x)"
  "minScore \<noteq> NegInf \<longrightarrow> (cols' = [] \<longrightarrow> minScore \<noteq> PosInf) \<longrightarrow>
     (\<exists>x. minLoop ai'' b'' d' cols' minScore alpha'' beta'' = Fin x)"
proof (induction ai b depth alpha beta isMaximizing and ai' b' d cols maxScore alpha' beta' and
    ai'' b'' d' cols' minScore alpha'' beta'' rule: minimax_maxLoop_minLoop.induct)
  case (1 ai b depth alpha beta isMaximizing)
  show ?case
  proof (cases "checkWinner b = Some (aiPlayer ai) \<or> checkWinner b = Some (humanPlayer ai) \<or>
          isBoardFull b \<or> depth = 0")
    case True
    then show ?thesis by (auto simp: minimax.simps[of ai b depth])
  next
    case False
    with orderMoves_nonempty[of b] have "orderMoves (AI_getValidMoves b) \<noteq> []" by blast
    with False "1.IH" show ?thesis
      by (cases isMaximizing) (simp_all add: minimax.simps[of ai b depth])
  qed
next
  case (2 ai b d maxScore alpha beta)
  show ?case by (cases maxScore) simp_all
next
  case (3 ai b d col cols maxScore alpha beta)
  let ?s = "minimax ai (snd (dropToken (clone b) col (aiPlayer ai))) d alpha beta False"
  show ?case
  proof (intro impI)
    assume m: "maxScore \<noteq> PosInf"
    from "3.IH"(1) obtain y where y: "?s = Fin y" by blast
    from max_Fin[OF m, of y] obtain z where z: "max maxScore ?s = Fin z" unfolding y by blast
    show "\<exists>x. maxLoop ai b d (col # cols) maxScore alpha beta = Fin x"
    proof (cases "beta \<le> max alpha ?s")
      case True
      with z show ?thesis by (simp add: Let_def)
    next
      case False
      from "3.IH"(2)[OF HOL.refl False] z
      have "\<exists>x. maxLoop ai b d cols (max maxScore ?s) (max alpha ?s) beta = Fin x" by simp
      with False show ?thesis by (simp add: Let_def)
    qed
  qed
next
  case (4 ai b d minScore alpha beta)
  show ?case by (cases minScore) simp_all
next
  case (5 ai b d col cols minScore alpha beta)
  let ?s = "minimax ai (snd (dropToken (clone b) col (humanPlayer ai))) d alpha beta True"
  show ?case
  proof (intro impI)
    assume m: "minScore \<noteq> NegInf"
    from "5.IH"(1) obtain y where y: "?s = Fin y" by blast
    from min_Fin[OF m, of y] obtain z where z: "min minScore ?s = Fin z" unfolding y by blast
    show "\<exists>x. minLoop ai b d (col # cols) minScore alpha beta = Fin x"
    proof (cases "min beta ?s \<le> alpha")
      case True
      with z show ?thesis by (simp add: Let_def)
    next
      case False
      from "5.IH"(2)[OF HOL.refl False] z
      have "\<exists>x. minLoop ai b d cols (min minScore ?s) alpha (min beta ?s) = Fin x" by simp
      with False show ?thesis by (simp add: Let_def)
    qed
  qed
qed

lemma bestMoveLoop_first_max:
  fixes ai b d
  defines "score \<equiv> \<lambda>c. minimax ai (snd (dropToken (clone b) c (aiPlayer ai))) d NegInf PosInf False"
  shows "((\<forall>c \<in> set cols. score c \<le> s) \<and> bestMoveLoop ai b d cols s m = m) \<or>
         (\<exists>i < length cols. bestMoveLoop ai b d cols s m = cols ! i \<and> s < score (cols ! i) \<and>
            (\<forall>j < length cols. score (cols ! j) \<le> score (cols ! i)) \<and>
            (\<forall>j < i. score (cols ! j) < score (cols ! i)))"
proof (induction cols arbitrary: s m)
  case Nil
  show ?case by simp
next
  case (Cons col cols)
  show ?case
  proof (cases "score col > s")
    case True
    then have r: "bestMoveLoop ai b d (col # cols) s m = bestMoveLoop ai b d cols (score col) col"
      by (simp add: score_def Let_def)
    from Cons[of "score col" col] show ?thesis
    proof (elim disjE conjE exE)
      assume a: "\<forall>c \<in> set cols. score c \<le> score col"
        and e: "bestMoveLoop ai b d cols (score col) col = col"
      have "\<forall>j < length (col # cols). score ((col # cols) ! j) \<le> score ((col # cols) ! 0)"
        using a by (auto simp: nth_Cons')
      with True r e have "0 < length (col # cols) \<and>
            bestMoveLoop ai b d (col # cols) s m = (col # cols) ! 0 \<and> s < score ((col # cols) ! 0) \<and>
            (\<forall>j < length (col # cols). score ((col # cols) ! j) \<le> score ((col # cols) ! 0)) \<and>
            (\<forall>j < 0. score ((col # cols) ! j) < score ((col # cols) ! 0))" by simp
      then show ?thesis by blast
    next
      fix i assume i: "i < length cols"
        and e: "bestMoveLoop ai b d cols (score col) col = cols ! i"
        and gt: "score col < score (cols ! i)"
        and le: "\<forall>j < length cols. score (cols ! j) \<le> score (cols ! i)"
        and lt: "\<forall>j < i. score (cols ! j) < score (cols ! i)"
      have "\<forall>j < length (col # cols). score ((col # cols) ! j) \<le> score ((col # cols) ! Suc i)"
        using le gt by (auto simp: nth_Cons' less_imp_le)
      moreover have "\<forall>j < Suc i. score ((col # cols) ! j) < score ((col # cols) ! Suc i)"
        using lt gt by (auto simp: nth_Cons')
      moreover have "s < score ((col # cols) ! Suc i)" using True gt by simp
      ultimately have "Suc i < length (col # cols) \<and>
            bestMoveLoop ai b d (col # cols) s m = (col # cols) ! Suc i \<and>
            s < score ((col # cols) ! Suc i) \<and>
            (\<forall>j < length (col # cols). score ((col # cols) ! j) \<le> score ((col # cols) ! Suc i)) \<and>
            (\<forall>j < Suc i. score ((col # cols) ! j) < score ((col # cols) ! Suc i))"
        using i r e by simp
      then show ?thesis by blast
    qed
  next
    case False
    then have r: "bestMoveLoop ai b d (col # cols) s m = bestMoveLoop ai b d cols s m"
      by (simp add: score_def Let_def)
    from False have cs: "score col \<le> s" by simp
    from Cons[of s m] show ?thesis
    proof (elim disjE conjE exE)
      assume a: "\<forall>c \<in> set cols. score c \<le> s" and e: "bestMoveLoop ai b d cols s m = m"
      with cs r show ?thesis by simp
    next
      fix i assume i: "i < length cols"
        and e: "bestMoveLoop ai b d cols s m = cols ! i"
        and gt: "s < score (cols ! i)"
        and le: "\<forall>j < length cols. score (cols ! j) \<le> score (cols ! i)"
        and lt: "\<forall>j < i. score (cols ! j) < score (cols ! i)"
      from cs gt have cg: "score col < score (cols ! i)" by simp
      have "\<forall>j < length (col # cols). score ((col # cols) ! j) \<le> score ((col # cols) ! Suc i)"
        using le cg by (auto simp: nth_Cons' less_imp_le)
      moreover have "\<forall>j < Suc i. score ((col # cols) ! j) < score ((col # cols) ! Suc i)"
        using lt cg by (auto simp: nth_Cons')
      ultimately have "Suc i < length (col # cols) \<and>
            bestMoveLoop ai b d (col # cols) s m = (col # cols) ! Suc i \<and>
            s < score ((col # cols) ! Suc i) \<and>
            (\<forall>j < length (col # cols). score ((col # cols) ! j) \<le> score ((col # cols) ! Suc i)) \<and>
            (\<forall>j < Suc i. score ((col # cols) ! j) < score ((col # cols) ! Suc i))"
        using i r e gt by simp
      then show ?thesis by blast
    qed
  qed
qed

section \<open>The scan of the whole board\<close>

lemma set_rows_cols:
  "set (concat (map (\<lambda>row. map (\<lambda>col. (int row, int col)) [c0..<c1]) [r0..<r1]))
   = {(r, c). int r0 \<le> r \<and> r < int r1 \<and> int c0 \<le> c \<and> c < int c1}"
proof (intro set_eqI iffI)
  fix x assume "x \<in> set (concat (map (\<lambda>row. map (\<lambda>col. (int row, int col)) [c0..<c1]) [r0..<r1]))"
  then show "x \<in> {(r, c). int r0 \<le> r \<and> r < int r1 \<and> int c0 \<le> c \<and> c < int c1}" by auto
next
  fix x assume "x \<in> {(r, c). int r0 \<le> r \<and> r < int r1 \<and> int c0 \<le> c \<and> c < int c1}"
  then obtain r c where x: "x = (r, c)" "int r0 \<le> r" "r < int r1" "int c0 \<le> c" "c < int c1" by auto
  then have m: "nat r \<in> set [r0..<r1]" "nat c \<in> set [c0..<c1]" and e: "x = (int (nat r), int (nat c))"
    by auto
  have "(int i, int j) \<in> set (concat (map (\<lambda>row. map (\<lambda>col. (int row, int col)) [c0..<c1]) [r0..<r1]))"
    if "i \<in> set [r0..<r1]" "j \<in> set [c0..<c1]" for i j
    using that by (auto intro!: bexI[where x=i] image_eqI[where x=j])
  from this[OF m] show "x \<in> set (concat (map (\<lambda>row. map (\<lambda>col. (int row, int col)) [c0..<c1]) [r0..<r1]))"
    unfolding e .
qed

lemma set_cols_rows:
  "set (concat (map (\<lambda>col. map (\<lambda>row. (int row, int col)) [r0..<r1]) [c0..<c1]))
   = {(r, c). int r0 \<le> r \<and> r < int r1 \<and> int c0 \<le> c \<and> c < int c1}"
proof (intro set_eqI iffI)
  fix x assume "x \<in> set (concat (map (\<lambda>col. map (\<lambda>row. (int row, int col)) [r0..<r1]) [c0..<c1]))"
  then show "x \<in> {(r, c). int r0 \<le> r \<and> r < int r1 \<and> int c0 \<le> c \<and> c < int c1}" by auto
next
  fix x assume "x \<in> {(r, c). int r0 \<le> r \<and> r < int r1 \<and> int c0 \<le> c \<and> c < int c1}"
  then obtain r c where x: "x = (r, c)" "int r0 \<le> r" "r < int r1" "int c0 \<le> c" "c < int c1" by auto
  then have m: "nat r \<in> set [r0..<r1]" "nat c \<in> set [c0..<c1]" and e: "x = (int (nat r), int (nat c))"
    by auto
  have "(int i, int j) \<in> set (concat (map (\<lambda>col. map (\<lambda>row. (int row, int col)) [r0..<r1]) [c0..<c1]))"
    if "i \<in> set [r0..<r1]" "j \<in> set [c0..<c1]" for i j
    using that by (auto intro!: bexI[where x=j] image_eqI[where x=i])
  from this[OF m] show "x \<in> set (concat (map (\<lambda>col. map (\<lambda>row. (int row, int col)) [r0..<r1]) [c0..<c1]))"
    unfolding e .
qed

lemma starts_sets:
  "set horizontalStarts = {(r, c). 0 \<le> r \<and> r < 6 \<and> 0 \<le> c \<and> c < 4}"
  "set verticalStarts = {(r, c). 0 \<le> r \<and> r < 3 \<and> 0 \<le> c \<and> c < 7}"
  "set diagonalUpStarts = {(r, c). 0 \<le> r \<and> r < 3 \<and> 0 \<le> c \<and> c < 4}"
  "set diagonalDownStarts = {(r, c). 3 \<le> r \<and> r < 6 \<and> 0 \<le> c \<and> c < 4}"
  unfolding horizontalStarts_def verticalStarts_def diagonalUpStarts_def diagonalDownStarts_def
    set_rows_cols set_cols_rows
  by (simp_all add: ROWS_def COLS_def)

lemma fourEqual_iff:
  "fourEqual b r c dRow dCol \<longleftrightarrow>
     getCell b r c \<noteq> Some EMPTY \<and> (getCell b r c = None \<and> getCell b (r + dRow) (c + dCol) = None \<and>
       getCell b (r + 2 * dRow) (c + 2 * dCol) = None \<and> getCell b (r + 3 * dRow) (c + 3 * dCol) = None
     \<or> (\<exists>p. fourOf b p r c dRow dCol))"
  unfolding fourEqual_def fourOf_def Let_def by (cases "getCell b r c") auto

lemma getCell_Some_in_grid:
  "getCell b r c = Some p \<Longrightarrow> 0 \<le> r \<and> r < 6 \<and> 0 \<le> c \<and> c < 7"
  by (auto simp: getCell_def ROWS_def COLS_def split: if_splits)

lemma getCell_in_grid_Some:
  "0 \<le> r \<and> r < 6 \<and> 0 \<le> c \<and> c < 7 \<Longrightarrow> \<exists>p. getCell b r c = Some p"
  by (auto simp: getCell_def ROWS_def COLS_def)

lemma find_Some_mem: "find P xs = Some x \<Longrightarrow> x \<in> set xs \<and> P x"
  by (auto simp: find_Some_iff)

lemma scan_Some:
  assumes "find (\<lambda>(row, col). fourEqual b row col dRow dCol) starts = Some (r, c)"
    and "\<forall>(r, c) \<in> set starts. 0 \<le> r \<and> r < 6 \<and> 0 \<le> c \<and> c < 7"
  shows "\<exists>p. getCell b r c = Some p \<and> p \<noteq> EMPTY \<and> fourOf b p r c dRow dCol"
proof -
  from find_Some_mem[OF assms(1)] have m: "(r, c) \<in> set starts" and f: "fourEqual b r c dRow dCol"
    by auto
  from m assms(2) getCell_in_grid_Some[of r c b] obtain p where p: "getCell b r c = Some p" by auto
  with f show ?thesis by (auto simp: fourEqual_iff fourOf_def)
qed

lemma scan_None:
  assumes "find (\<lambda>(row, col). fourEqual b row col dRow dCol) starts = None"
    and "(r, c) \<in> set starts" and "p \<noteq> EMPTY"
  shows "\<not> fourOf b p r c dRow dCol"
proof
  assume l: "fourOf b p r c dRow dCol"
  then have "getCell b r c = Some p" by (simp add: fourOf_def)
  with l assms(3) have "fourEqual b r c dRow dCol" by (auto simp: fourEqual_iff)
  with assms(1,2) show False by (auto simp: find_None_iff)
qed

lemma checkWinner_Some:
  assumes "checkWinner b = Some p"
  shows "p \<noteq> EMPTY \<and> (\<exists>r c dRow dCol. (dRow, dCol) \<in> set [(0, 1), (1, 0), (1, 1), (- 1, 1)] \<and>
           fourOf b p r c dRow dCol)"
proof -
  have in_grid:
    "\<forall>(r, c) \<in> set horizontalStarts. 0 \<le> r \<and> r < 6 \<and> 0 \<le> c \<and> c < 7"
    "\<forall>(r, c) \<in> set verticalStarts. 0 \<le> r \<and> r < 6 \<and> 0 \<le> c \<and> c < 7"
    "\<forall>(r, c) \<in> set diagonalUpStarts. 0 \<le> r \<and> r < 6 \<and> 0 \<le> c \<and> c < 7"
    "\<forall>(r, c) \<in> set diagonalDownStarts. 0 \<le> r \<and> r < 6 \<and> 0 \<le> c \<and> c < 7"
    unfolding starts_sets by auto
  from assms obtain r c dRow dCol starts where
    "(dRow, dCol) \<in> set [(0, 1), (1, 0), (1, 1), (- 1, 1)]"
    "find (\<lambda>(row, col). fourEqual b row col dRow dCol) starts = Some (r, c)"
    "\<forall>(r, c) \<in> set starts. 0 \<le> r \<and> r < 6 \<and> 0 \<le> c \<and> c < 7"
    "getCell b r c = Some p"
    using in_grid unfolding checkWinner_def
    by (fastforce split: option.splits prod.splits)
  with scan_Some[of b dRow dCol starts r c] show ?thesis by auto
qed

lemma checkWinner_None:
  assumes "checkWinner b = None" and "p \<noteq> EMPTY"
    and "(dRow, dCol) \<in> set [(0, 1), (1, 0), (1, 1), (- 1, 1)]"
  shows "\<not> fourOf b p r c dRow dCol"
proof
  assume l: "fourOf b p r c dRow dCol"
  have nn: "getCell b r' c' \<noteq> None" if "(r', c') \<in> set starts"
     "\<forall>(r, c) \<in> set starts. 0 \<le> r \<and> r < 6 \<and> 0 \<le> c \<and> c < 7" for r' c' starts
    using that getCell_in_grid_Some[of r' c' b] by auto
  have in_grid:
    "\<forall>(r, c) \<in> set horizontalStarts. 0 \<le> r \<and> r < 6 \<and> 0 \<le> c \<and> c < 7"
    "\<forall>(r, c) \<in> set verticalStarts. 0 \<le> r \<and> r < 6 \<and> 0 \<le> c \<and> c < 7"
    "\<forall>(r, c) \<in> set diagonalUpStarts. 0 \<le> r \<and> r < 6 \<and> 0 \<le> c \<and> c < 7"
    "\<forall>(r, c) \<in> set diagonalDownStarts. 0 \<le> r \<and> r < 6 \<and> 0 \<le> c \<and> c < 7"
    unfolding starts_sets by auto
  have found: "getCell b (fst x) (snd x) \<noteq> None"
    if "find P starts = Some x" "\<forall>(r, c) \<in> set starts. 0 \<le> r \<and> r < 6 \<and> 0 \<le> c \<and> c < 7"
    for P starts x
    using find_Some_mem[OF that(1)] that(2) nn[of "fst x" "snd x" starts] by auto
  have n1: "find (\<lambda>(row, col). fourEqual b row col 0 1) horizontalStarts = None"
  proof (rule ccontr)
    assume "find (\<lambda>(row, col). fourEqual b row col 0 1) horizontalStarts \<noteq> None"
    then obtain x where x: "find (\<lambda>(row, col). fourEqual b row col 0 1) horizontalStarts = Some x"
      by auto
    with assms(1) have "getCell b (fst x) (snd x) = None"
      by (simp add: checkWinner_def split: prod.splits)
    with found[OF x in_grid(1)] show False by simp
  qed
  have n2: "find (\<lambda>(row, col). fourEqual b row col 1 0) verticalStarts = None"
  proof (rule ccontr)
    assume "find (\<lambda>(row, col). fourEqual b row col 1 0) verticalStarts \<noteq> None"
    then obtain x where x: "find (\<lambda>(row, col). fourEqual b row col 1 0) verticalStarts = Some x"
      by auto
    with assms(1) n1 have "getCell b (fst x) (snd x) = None"
      by (simp add: checkWinner_def split: prod.splits)
    with found[OF x in_grid(2)] show False by simp
  qed
  have n3: "find (\<lambda>(row, col). fourEqual b row col 1 1) diagonalUpStarts = None"
  proof (rule ccontr)
    assume "find (\<lambda>(row, col). fourEqual b row col 1 1) diagonalUpStarts \<noteq> None"
    then obtain x where x: "find (\<lambda>(row, col). fourEqual b row col 1 1) diagonalUpStarts = Some x"
      by auto
    with assms(1) n1 n2 have "getCell b (fst x) (snd x) = None"
      by (simp add: checkWinner_def split: prod.splits)
    with found[OF x in_grid(3)] show False by simp
  qed
  have n4: "find (\<lambda>(row, col). fourEqual b row col (- 1) 1) diagonalDownStarts = None"
  proof (rule ccontr)
    assume "find (\<lambda>(row, col). fourEqual b row col (- 1) 1) diagonalDownStarts \<noteq> None"
    then obtain x where x: "find (\<lambda>(row, col). fourEqual b row col (- 1) 1) diagonalDownStarts = Some x"
      by auto
    with assms(1) n1 n2 n3 have "getCell b (fst x) (snd x) = None"
      by (simp add: checkWinner_def split: prod.splits)
    with found[OF x in_grid(4)] show False by simp
  qed
  note none = n1 n2 n3 n4
  from l have g: "0 \<le> r \<and> r < 6 \<and> 0 \<le> c \<and> c < 7"
    "0 \<le> r + 3 * dRow \<and> r + 3 * dRow < 6 \<and> 0 \<le> c + 3 * dCol \<and> c + 3 * dCol < 7"
    unfolding fourOf_def using getCell_Some_in_grid by blast+
  from assms(3) consider "(dRow, dCol) = (0, 1)" | "(dRow, dCol) = (1, 0)"
    | "(dRow, dCol) = (1, 1)" | "(dRow, dCol) = (- 1, 1)" by auto
  then show False
  proof cases
    case 1
    with g have "(r, c) \<in> set horizontalStarts" unfolding starts_sets by auto
    from scan_None[OF none(1) this assms(2)] l 1 show False by simp
  next
    case 2
    with g have "(r, c) \<in> set verticalStarts" unfolding starts_sets by auto
    from scan_None[OF none(2) this assms(2)] l 2 show False by simp
  next
    case 3
    with g have "(r, c) \<in> set diagonalUpStarts" unfolding starts_sets by auto
    from scan_None[OF none(3) this assms(2)] l 3 show False by simp
  next
    case 4
    with g have "(r, c) \<in> set diagonalDownStarts" unfolding starts_sets by auto
    from scan_None[OF none(4) this assms(2)] l 4 show False by simp
  qed
qed

section \<open>The store model computes what the functions on board values compute\<close>

lemma wf_ref_iff:
  "wf_ref h board \<longleftrightarrow> length board = ROWS \<and> distinct board \<and> (\<forall>a \<in> set board. a < length h)"
  by (simp add: wf_ref_def list_all_iff)

lemma deref_append: "\<forall>a \<in> set board. a < length h \<Longrightarrow> deref (h @ new) board = deref h board"
  by (simp add: deref_def nth_append)

lemma deref_fresh: "deref (h @ rows) [length h..<length h + length rows] = rows"
  by (rule nth_equalityI) (simp_all add: deref_def nth_append)

lemma wf_ref_append: "wf_ref h board \<Longrightarrow> wf_ref (h @ new) board"
  by (auto simp: wf_ref_iff)

lemma wf_ref_fresh: "length rows = ROWS \<Longrightarrow> wf_ref (h @ rows) [length h..<length h + ROWS]"
  by (simp add: wf_ref_iff)

lemma length_clone: "length (clone b) = ROWS"
  by (simp add: clone_def)

lemma length_dropToken: "length (snd (dropToken b col p)) = length b"
  by (simp add: dropToken_def Let_def)

lemma copy_cells:
  assumes len: "length board = ROWS" and old: "\<forall>a \<in> set board. a < length h"
    and ps: "\<forall>(row, col) \<in> set ps. row < ROWS \<and> col < COLS"
  shows "fold (copyCell board [length h..<length h + ROWS]) ps
           (h @ replicate ROWS (replicate COLS EMPTY))
         = h @ map (\<lambda>row. map (\<lambda>col. if (row, col) \<in> set ps then h ! (board ! row) ! col else EMPTY)
                     [0..<COLS]) [0..<ROWS]"
  using ps
proof (induction ps rule: rev_induct)
  case Nil
  show ?case
    by (simp add: map_replicate_const del: upt_Suc)
next
  case (snoc p ps)
  obtain row col where p: "p = (row, col)" by (cases p)
  with snoc.prems have rc: "row < ROWS" "col < COLS" by auto
  let ?M = "\<lambda>qs. map (\<lambda>row. map (\<lambda>col. if (row, col) \<in> set qs then h ! (board ! row) ! col else EMPTY)
                     [0..<COLS]) [0..<ROWS]"
  from snoc have ih: "fold (copyCell board [length h..<length h + ROWS]) ps
           (h @ replicate ROWS (replicate COLS EMPTY)) = h @ ?M ps" by auto
  from rc len old have src: "board ! row < length h" by auto
  have upd: "copyCell board [length h..<length h + ROWS] (row, col) (h @ ?M ps)
      = h @ (?M ps)[row := (?M ps ! row)[col := h ! (board ! row) ! col]]"
    using rc src by (simp add: copyCell_def nth_append list_update_append del: upt_Suc)
  have "(?M ps)[row := (?M ps ! row)[col := h ! (board ! row) ! col]] = ?M (ps @ [(row, col)])"
  proof (rule nth_equalityI)
    show "length ((?M ps)[row := (?M ps ! row)[col := h ! (board ! row) ! col]])
        = length (?M (ps @ [(row, col)]))" by simp
  next
    fix i assume "i < length ((?M ps)[row := (?M ps ! row)[col := h ! (board ! row) ! col]])"
    then have i: "i < ROWS" by simp
    show "(?M ps)[row := (?M ps ! row)[col := h ! (board ! row) ! col]] ! i
        = ?M (ps @ [(row, col)]) ! i"
    proof (rule nth_equalityI)
      show "length ((?M ps)[row := (?M ps ! row)[col := h ! (board ! row) ! col]] ! i)
          = length (?M (ps @ [(row, col)]) ! i)"
        using i rc by (cases "i = row") (simp_all del: upt_Suc)
    next
      fix j assume "j < length ((?M ps)[row := (?M ps ! row)[col := h ! (board ! row) ! col]] ! i)"
      then have j: "j < COLS" using i rc by (cases "i = row") (simp_all del: upt_Suc)
      show "(?M ps)[row := (?M ps ! row)[col := h ! (board ! row) ! col]] ! i ! j
          = ?M (ps @ [(row, col)]) ! i ! j"
        using i j rc by (cases "i = row"; cases "j = col") (simp_all del: upt_Suc)
    qed
  qed
  with upd ih p show ?case by simp
qed

lemma clone_h_spec:
  assumes "wf_ref h board"
  shows "clone_h h board = ([length h..<length h + ROWS], h @ clone (deref h board))"
proof -
  from assms have len: "length board = ROWS" and old: "\<forall>a \<in> set board. a < length h"
    by (simp_all add: wf_ref_iff)
  have ps: "\<forall>(row, col) \<in> set (List.product [0..<ROWS] [0..<COLS]). row < ROWS \<and> col < COLS"
    by auto
  have "map (\<lambda>row. map (\<lambda>col. if (row, col) \<in> set (List.product [0..<ROWS] [0..<COLS])
                 then h ! (board ! row) ! col else EMPTY) [0..<COLS]) [0..<ROWS]
        = clone (deref h board)"
    unfolding clone_def using len by (auto simp: deref_def simp del: upt_Suc)
  with copy_cells[OF len old ps] show ?thesis
    by (simp add: clone_h_def new_Board_def)
qed

lemma dropToken_h_fresh:
  assumes "length rows = ROWS"
  shows "dropToken_h (h @ rows) [length h..<length h + ROWS] col p
         = (fst (dropToken rows col p), h @ snd (dropToken rows col p))"
proof -
  have d: "deref (h @ rows) [length h..<length h + ROWS] = rows"
    using deref_fresh[of h rows] assms by simp
  show ?thesis
  proof (cases "findLowestRow rows col = - 1")
    case True
    then show ?thesis by (simp add: dropToken_h_def dropToken_def d)
  next
    case False
    with findLowestRow_cases[of rows col] obtain row where
      row: "row < ROWS" "findLowestRow rows col = int row" by blast
    with assms show ?thesis
      by (simp add: dropToken_h_def dropToken_def d nth_append list_update_append del: upt_Suc)
  qed
qed


lemma simulate_move:
  assumes "wf_ref h board"
  shows "fst (clone_h h board) = [length h..<length h + ROWS]"
    and "snd (dropToken_h (snd (clone_h h board)) (fst (clone_h h board)) col p)
         = h @ snd (dropToken (clone (deref h board)) col p)"
    and "wf_ref (h @ snd (dropToken (clone (deref h board)) col p)) [length h..<length h + ROWS]"
    and "deref (h @ snd (dropToken (clone (deref h board)) col p)) [length h..<length h + ROWS]
         = snd (dropToken (clone (deref h board)) col p)"
proof -
  let ?child = "snd (dropToken (clone (deref h board)) col p)"
  have len: "length ?child = ROWS" by (simp add: length_dropToken length_clone)
  show "fst (clone_h h board) = [length h..<length h + ROWS]"
    by (simp add: clone_h_spec[OF assms])
  show "snd (dropToken_h (snd (clone_h h board)) (fst (clone_h h board)) col p) = h @ ?child"
    by (simp add: clone_h_spec[OF assms] dropToken_h_fresh[OF length_clone])
  show "wf_ref (h @ ?child) [length h..<length h + ROWS]"
    by (rule wf_ref_fresh[OF len])
  show "deref (h @ ?child) [length h..<length h + ROWS] = ?child"
    using deref_fresh[of h ?child] len by simp
qed

lemma wf_ref_old: "wf_ref h board \<Longrightarrow> \<forall>a \<in> set board. a < length h"
  by (simp add: wf_ref_iff)

lemma minimax_h_sound:
  "wf_ref h board \<longrightarrow>
     fst (minimax_h ai h board depth alpha beta isMaximizing)
       = minimax ai (deref h board) depth alpha beta isMaximizing \<and>
     (\<exists>new. snd (minimax_h ai h board depth alpha beta isMaximizing) = h @ new)"
  "wf_ref h' board' \<longrightarrow>
     fst (maxLoop_h ai' h' board' d cols maxScore alpha' beta')
       = maxLoop ai' (deref h' board') d cols maxScore alpha' beta' \<and>
     (\<exists>new. snd (maxLoop_h ai' h' board' d cols maxScore alpha' beta') = h' @ new)"
  "wf_ref h'' board'' \<longrightarrow>
     fst (minLoop_h ai'' h'' board'' d' cols' minScore alpha'' beta'')
       = minLoop ai'' (deref h'' board'') d' cols' minScore alpha'' beta'' \<and>
     (\<exists>new. snd (minLoop_h ai'' h'' board'' d' cols' minScore alpha'' beta'') = h'' @ new)"
proof (induction ai h board depth alpha beta isMaximizing
    and ai' h' board' d cols maxScore alpha' beta'
    and ai'' h'' board'' d' cols' minScore alpha'' beta''
    rule: minimax_h_maxLoop_h_minLoop_h.induct)
  case (1 ai h board depth alpha beta isMaximizing)
  show ?case
  proof (cases "checkWinner (deref h board) = Some (aiPlayer ai) \<or>
      checkWinner (deref h board) = Some (humanPlayer ai) \<or> isBoardFull (deref h board) \<or> depth = 0")
    case True
    then show ?thesis
      by (auto simp: minimax_h.simps[of ai h board depth] minimax.simps[of ai "deref h board" depth])
  next
    case False
    with "1.IH" show ?thesis
      by (cases isMaximizing)
         (simp_all add: minimax_h.simps[of ai h board depth] minimax.simps[of ai "deref h board" depth])
  qed
next
  case (2 ai h board d maxScore alpha beta)
  show ?case by (simp del: minimax_h.simps)
next
  case (3 ai h board d col cols maxScore alpha beta)
  show ?case
  proof
    assume wf: "wf_ref h board"
    let ?b = "deref h board"
    let ?child = "snd (dropToken (clone ?b) col (aiPlayer ai))"
    let ?nb = "[length h..<length h + ROWS]"
    let ?c = "clone_h h board"
    let ?dr = "dropToken_h (snd ?c) (fst ?c) col (aiPlayer ai)"
    let ?sc = "minimax_h ai (snd ?dr) (fst ?c) d alpha beta False"
    note sim = simulate_move(1)[OF wf] simulate_move(2-4)[OF wf, of col "aiPlayer ai"]
    from "3.IH"(1)[OF HOL.refl HOL.refl] sim
    have sc: "fst ?sc = minimax ai ?child d alpha beta False"
      and "\<exists>new. snd ?sc = (h @ ?child) @ new" by (simp_all del: minimax_h.simps)
    then obtain new1 where new1: "snd ?sc = h @ (?child @ new1)" by (auto simp del: minimax_h.simps)
    show "fst (maxLoop_h ai h board d (col # cols) maxScore alpha beta)
            = maxLoop ai ?b d (col # cols) maxScore alpha beta \<and>
          (\<exists>new. snd (maxLoop_h ai h board d (col # cols) maxScore alpha beta) = h @ new)"
    proof (cases "beta \<le> max alpha (fst ?sc)")
      case True
      with sc new1 show ?thesis by (simp add: Let_def del: minimax_h.simps)
    next
      case False
      have wf': "wf_ref (snd ?sc) board" unfolding new1 by (rule wf_ref_append[OF wf])
      have d': "deref (snd ?sc) board = ?b"
        unfolding new1 by (rule deref_append[OF wf_ref_old[OF wf]])
      from "3.IH"(2)[OF HOL.refl HOL.refl HOL.refl False] wf'
      have "fst (maxLoop_h ai (snd ?sc) board d cols (max maxScore (fst ?sc)) (max alpha (fst ?sc)) beta)
              = maxLoop ai ?b d cols (max maxScore (fst ?sc)) (max alpha (fst ?sc)) beta"
        and "\<exists>new. snd (maxLoop_h ai (snd ?sc) board d cols (max maxScore (fst ?sc))
                (max alpha (fst ?sc)) beta) = snd ?sc @ new"
        unfolding d' by blast+
      with False sc new1 show ?thesis by (auto simp: Let_def simp del: minimax_h.simps)
    qed
  qed
next
  case (4 ai h board d minScore alpha beta)
  show ?case by (simp del: minimax_h.simps)
next
  case (5 ai h board d col cols minScore alpha beta)
  show ?case
  proof
    assume wf: "wf_ref h board"
    let ?b = "deref h board"
    let ?child = "snd (dropToken (clone ?b) col (humanPlayer ai))"
    let ?c = "clone_h h board"
    let ?dr = "dropToken_h (snd ?c) (fst ?c) col (humanPlayer ai)"
    let ?sc = "minimax_h ai (snd ?dr) (fst ?c) d alpha beta True"
    note sim = simulate_move(1)[OF wf] simulate_move(2-4)[OF wf, of col "humanPlayer ai"]
    from "5.IH"(1)[OF HOL.refl HOL.refl] sim
    have sc: "fst ?sc = minimax ai ?child d alpha beta True"
      and "\<exists>new. snd ?sc = (h @ ?child) @ new" by (simp_all del: minimax_h.simps)
    then obtain new1 where new1: "snd ?sc = h @ (?child @ new1)" by (auto simp del: minimax_h.simps)
    show "fst (minLoop_h ai h board d (col # cols) minScore alpha beta)
            = minLoop ai ?b d (col # cols) minScore alpha beta \<and>
          (\<exists>new. snd (minLoop_h ai h board d (col # cols) minScore alpha beta) = h @ new)"
    proof (cases "min beta (fst ?sc) \<le> alpha")
      case True
      with sc new1 show ?thesis by (simp add: Let_def del: minimax_h.simps)
    next
      case False
      have wf': "wf_ref (snd ?sc) board" unfolding new1 by (rule wf_ref_append[OF wf])
      have d': "deref (snd ?sc) board = ?b"
        unfolding new1 by (rule deref_append[OF wf_ref_old[OF wf]])
      from "5.IH"(2)[OF HOL.refl HOL.refl HOL.refl False] wf'
      have "fst (minLoop_h ai (snd ?sc) board d cols (min minScore (fst ?sc)) alpha (min beta (fst ?sc)))
              = minLoop ai ?b d cols (min minScore (fst ?sc)) alpha (min beta (fst ?sc))"
        and "\<exists>new. snd (minLoop_h ai (snd ?sc) board d cols (min minScore (fst ?sc)) alpha
                (min beta (fst ?sc))) = snd ?sc @ new"
        unfolding d' by blast+
      with False sc new1 show ?thesis by (auto simp: Let_def simp del: minimax_h.simps)
    qed
  qed
qed

lemma bestMoveLoop_h_sound:
  "wf_ref h board \<Longrightarrow>
     fst (bestMoveLoop_h ai h board d cols bestScore bestMove)
       = bestMoveLoop ai (deref h board) d cols bestScore bestMove \<and>
     (\<exists>new. snd (bestMoveLoop_h ai h board d cols bestScore bestMove) = h @ new)"
proof (induction cols arbitrary: h bestScore bestMove)
  case Nil
  show ?case by (simp del: minimax_h.simps)
next
  case (Cons col cols)
  let ?b = "deref h board"
  let ?child = "snd (dropToken (clone ?b) col (aiPlayer ai))"
  let ?nb = "[length h..<length h + ROWS]"
  let ?c = "clone_h h board"
  let ?dr = "dropToken_h (snd ?c) (fst ?c) col (aiPlayer ai)"
  let ?sc = "minimax_h ai (snd ?dr) (fst ?c) d NegInf PosInf False"
  note wf = Cons.prems
  note sim = simulate_move(1)[OF wf] simulate_move(2-4)[OF wf, of col "aiPlayer ai"]
  from minimax_h_sound(1)[of "h @ ?child" ?nb ai d NegInf PosInf False] sim
  have sc: "fst ?sc = minimax ai ?child d NegInf PosInf False"
    and "\<exists>new. snd ?sc = (h @ ?child) @ new" by (simp_all del: minimax_h.simps)
  then obtain new1 where new1: "snd ?sc = h @ (?child @ new1)" by (auto simp del: minimax_h.simps)
  have wf': "wf_ref (snd ?sc) board" unfolding new1 by (rule wf_ref_append[OF wf])
  have d': "deref (snd ?sc) board = ?b"
    unfolding new1 by (rule deref_append[OF wf_ref_old[OF wf]])
  have ih: "fst (bestMoveLoop_h ai (snd ?sc) board d cols s m) = bestMoveLoop ai ?b d cols s m \<and>
        (\<exists>new. snd (bestMoveLoop_h ai (snd ?sc) board d cols s m) = snd ?sc @ new)" for s m
    using Cons.IH[OF wf', of s m] unfolding d' .
  show ?case
  proof (cases "fst ?sc > bestScore")
    case True
    with ih[of "fst ?sc" col] sc new1 show ?thesis by (auto simp: Let_def simp del: minimax_h.simps)
  next
    case False
    with ih[of bestScore bestMove] sc new1 show ?thesis by (auto simp: Let_def simp del: minimax_h.simps)
  qed
qed

lemma getBestMove_h_sound:
  assumes "wf_ref h board"
  shows "fst (getBestMove_h ai rnd1 rnd2 h board) = getBestMove ai rnd1 rnd2 (deref h board) \<and>
         (\<exists>new. snd (getBestMove_h ai rnd1 rnd2 h board) = h @ new)"
  using bestMoveLoop_h_sound[OF assms]
  by (simp add: getBestMove_h_def getBestMove_def Let_def del: minimax_h.simps)

lemma clone_id: "wf_board b \<Longrightarrow> clone b = b"
proof (rule nth_equalityI)
  assume wf: "wf_board b"
  then show "length (clone b) = length b" by (simp add: clone_def wf_board_def)
  fix i assume "i < length (clone b)"
  then have i: "i < ROWS" by (simp add: clone_def)
  show "clone b ! i = b ! i"
  proof (rule nth_equalityI)
    show "length (clone b ! i) = length (b ! i)"
      using i wf_board_nth[OF wf i] by (simp add: clone_def del: upt_Suc)
  next
    fix j assume "j < length (clone b ! i)"
    with i show "clone b ! i ! j = b ! i ! j" by (simp add: clone_def del: upt_Suc)
  qed
qed

lemma deref_update_other: "a \<notin> set board \<Longrightarrow> deref (h[a := x]) board = deref h board"
proof -
  assume a: "a \<notin> set board"
  have "h[a := x] ! k = h ! k" if "k \<in> set board" for k
    using a that by (intro nth_list_update_neq) auto
  then show ?thesis by (simp add: deref_def)
qed

section \<open>Pruning (claim C1)\<close>

lemma maxLoopUnpruned_max:
  "maxLoopUnpruned ai b d cols (max x y) = max x (maxLoopUnpruned ai b d cols y)"
  by (induction cols arbitrary: y) (simp_all add: max.assoc del: minimaxUnpruned.simps)

lemma minLoopUnpruned_min:
  "minLoopUnpruned ai b d cols (min x y) = min x (minLoopUnpruned ai b d cols y)"
  by (induction cols arbitrary: y) (simp_all add: min.assoc del: minimaxUnpruned.simps)

lemma maxLoop_ge: "m \<le> maxLoop ai b d cols m a bt"
proof (induction cols arbitrary: m a)
  case Nil
  show ?case by simp
next
  case (Cons col cols)
  show ?case
    using Cons[of "max m (minimax ai (snd (dropToken (clone b) col (aiPlayer ai))) d a bt False)"
                  "max a (minimax ai (snd (dropToken (clone b) col (aiPlayer ai))) d a bt False)"]
    by (auto simp: Let_def)
qed

lemma minLoop_le: "minLoop ai b d cols m a bt \<le> m"
proof (induction cols arbitrary: m bt)
  case Nil
  show ?case by simp
next
  case (Cons col cols)
  show ?case
    using Cons[of "min m (minimax ai (snd (dropToken (clone b) col (humanPlayer ai))) d a bt True)"
                  "min bt (minimax ai (snd (dropToken (clone b) col (humanPlayer ai))) d a bt True)"]
    by (auto simp: Let_def)
qed

lemma NegInf_least [simp]: "NegInf \<le> x" by simp
lemma PosInf_greatest [simp]: "x \<le> PosInf" by (cases x) simp_all
lemma max_NegInf [simp]: "max x NegInf = x" by (cases x) (simp_all add: max_def)
lemma min_PosInf [simp]: "min x PosInf = x" by (cases x) (simp_all add: min_def)

lemma maxLoopUnpruned_rest:
  "maxLoopUnpruned ai b d cols x = max x (maxLoopUnpruned ai b d cols NegInf)"
  using maxLoopUnpruned_max[of ai b d cols x NegInf] by (simp del: minimaxUnpruned.simps)

lemma minLoopUnpruned_rest:
  "minLoopUnpruned ai b d cols x = min x (minLoopUnpruned ai b d cols PosInf)"
  using minLoopUnpruned_min[of ai b d cols x PosInf] by (simp del: minimaxUnpruned.simps)

lemma max_step_break:
  assumes "m \<le> a" "a < bt" "approx a bt v s" "bt \<le> max a s"
  shows "approx a bt (max (max m v) W) (max m s)"
proof -
  from assms(2,4) have s: "bt \<le> s" by (auto simp: le_max_iff_disj)
  with assms have "s \<le> v" "max m s = s" by (auto simp: approx_def)
  with s assms(2) show ?thesis by (auto simp: approx_def le_max_iff_disj)
qed

lemma max_step_continue:
  assumes "m \<le> a" "a < bt" "approx a bt v s" "\<not> bt \<le> max a s"
    and "approx (max a s) bt (max (max m s) W) R" and "max m s \<le> R"
  shows "approx a bt (max (max m v) W) R"
proof (cases "s \<le> a")
  case True
  with assms(3) have vs: "v \<le> s" by (simp add: approx_def)
  from True have [simp]: "max a s = a" by simp
  from assms(5) have ih: "approx a bt (max (max m s) W) R" by simp
  show ?thesis
    unfolding approx_def
  proof (intro conjI impI)
    assume "R \<le> a"
    with ih have "max (max m s) W \<le> R" by (simp add: approx_def)
    with vs show "max (max m v) W \<le> R" by auto
  next
    assume r: "a < R \<and> R < bt"
    with ih have "max (max m s) W = R" by (simp add: approx_def)
    with r True assms(1) have "W = R" by (auto simp: max_def split: if_splits)
    moreover from r have "a < R" by simp
    with True assms(1) vs have "m \<le> R" "v \<le> R" by order+
    ultimately show "max (max m v) W = R" by (simp add: max_absorb2)
  next
    assume "bt \<le> R"
    with ih have "R \<le> max (max m s) W" by (simp add: approx_def)
    with \<open>bt \<le> R\<close> True assms(1,2) have "R \<le> W" by (auto simp: le_max_iff_disj)
    then show "R \<le> max (max m v) W" by (simp add: le_max_iff_disj)
  qed
next
  case False
  then have as: "a < s" by simp
  with assms(4) have sb: "s < bt" by simp
  with as assms(3) have v: "v = s" by (simp add: approx_def)
  from as assms(1) have [simp]: "max a s = s" "max m s = s" by auto
  from assms(5) have ih: "approx s bt (max s W) R" by simp
  from assms(6) have sR: "s \<le> R" by simp
  show ?thesis
    unfolding approx_def v
  proof (intro conjI impI)
    assume "R \<le> a"
    with sR as show "max (max m s) W \<le> R" by simp
  next
    assume r: "a < R \<and> R < bt"
    show "max (max m s) W = R"
    proof (cases "R \<le> s")
      case True
      with ih have "max s W \<le> R" unfolding approx_def by blast
      moreover from True have "R \<le> max s W" by (simp add: le_max_iff_disj)
      ultimately have "max s W = R" by (rule order.antisym)
      then show ?thesis by simp
    next
      case False
      with r ih show ?thesis by (simp add: approx_def)
    qed
  next
    assume "bt \<le> R"
    with ih show "R \<le> max (max m s) W" by (simp add: approx_def)
  qed
qed

lemma min_step_break:
  assumes "bt \<le> m" "a < bt" "approx a bt v s" "min bt s \<le> a"
  shows "approx a bt (min (min m v) W) (min m s)"
proof -
  from assms(2,4) have s: "s \<le> a" by (auto simp: min_le_iff_disj)
  with assms have "v \<le> s" "min m s = s" by (auto simp: approx_def)
  with s assms(2) show ?thesis by (auto simp: approx_def min_le_iff_disj)
qed

lemma min_step_continue:
  assumes "bt \<le> m" "a < bt" "approx a bt v s" "\<not> min bt s \<le> a"
    and "approx a (min bt s) (min (min m s) W) R" and "R \<le> min m s"
  shows "approx a bt (min (min m v) W) R"
proof (cases "bt \<le> s")
  case True
  with assms(3) have vs: "s \<le> v" by (simp add: approx_def)
  from True have [simp]: "min bt s = bt" by simp
  from assms(5) have ih: "approx a bt (min (min m s) W) R" by simp
  show ?thesis
    unfolding approx_def
  proof (intro conjI impI)
    assume "R \<le> a"
    with ih have "min (min m s) W \<le> R" by (simp add: approx_def)
    with \<open>R \<le> a\<close> True assms(1,2) have "W \<le> R" by (auto simp: min_le_iff_disj)
    then show "min (min m v) W \<le> R" by (simp add: min_le_iff_disj)
  next
    assume r: "a < R \<and> R < bt"
    with ih have "min (min m s) W = R" by (simp add: approx_def)
    with r True assms(1) have "W = R" by (auto simp: min_def split: if_splits)
    moreover from r have "R < bt" by simp
    with True assms(1) vs have "R \<le> m" "R \<le> v" by order+
    ultimately show "min (min m v) W = R" by (simp add: min_absorb2)
  next
    assume "bt \<le> R"
    with ih have "R \<le> min (min m s) W" by (simp add: approx_def)
    with vs show "R \<le> min (min m v) W" by auto
  qed
next
  case False
  then have sb: "s < bt" by simp
  with assms(4) have as: "a < s" by simp
  with sb assms(3) have v: "v = s" by (simp add: approx_def)
  from sb assms(1) have [simp]: "min bt s = s" "min m s = s" by auto
  from assms(5) have ih: "approx a s (min s W) R" by simp
  from assms(6) have Rs: "R \<le> s" by simp
  show ?thesis
    unfolding approx_def v
  proof (intro conjI impI)
    assume "R \<le> a"
    with ih show "min (min m s) W \<le> R" by (simp add: approx_def)
  next
    assume r: "a < R \<and> R < bt"
    show "min (min m s) W = R"
    proof (cases "s \<le> R")
      case True
      with ih have "R \<le> min s W" unfolding approx_def by blast
      moreover from True have "min s W \<le> R" by (simp add: min_le_iff_disj)
      ultimately have "min s W = R" by order
      then show ?thesis by simp
    next
      case False
      with r ih show ?thesis by (simp add: approx_def)
    qed
  next
    assume "bt \<le> R"
    with Rs sb show "R \<le> min (min m s) W" by simp
  qed
qed

lemma pruning_sound:
  "(alpha < beta \<longrightarrow>
      approx alpha beta (minimaxUnpruned ai b depth isMaximizing)
        (minimax ai b depth alpha beta isMaximizing))"
  "(maxScore \<le> alpha' \<longrightarrow> alpha' < beta' \<longrightarrow>
      approx alpha' beta' (maxLoopUnpruned ai' b' d cols maxScore)
        (maxLoop ai' b' d cols maxScore alpha' beta'))"
  "(beta'' \<le> minScore \<longrightarrow> alpha'' < beta'' \<longrightarrow>
      approx alpha'' beta'' (minLoopUnpruned ai'' b'' d' cols' minScore)
        (minLoop ai'' b'' d' cols' minScore alpha'' beta''))"
proof (induction ai b depth alpha beta isMaximizing and ai' b' d cols maxScore alpha' beta' and
    ai'' b'' d' cols' minScore alpha'' beta'' rule: minimax_maxLoop_minLoop.induct)
  case (1 ai b depth alpha beta isMaximizing)
  show ?case
  proof
    assume ab: "alpha < beta"
    have refl: "approx alpha beta x x" for x by (simp add: approx_def del: minimaxUnpruned.simps)
    show "approx alpha beta (minimaxUnpruned ai b depth isMaximizing)
        (minimax ai b depth alpha beta isMaximizing)"
    proof (cases "checkWinner b = Some (aiPlayer ai) \<or> checkWinner b = Some (humanPlayer ai) \<or>
          isBoardFull b \<or> depth = 0")
      case True
      then have "minimax ai b depth alpha beta isMaximizing = minimaxUnpruned ai b depth isMaximizing"
        by (auto simp: minimax.simps[of ai b depth] minimaxUnpruned.simps[of ai b depth])
      then show ?thesis by (simp only: refl)
    next
      case False
      then show ?thesis using "1.IH" ab
        by (cases isMaximizing)
           (simp_all add: minimax.simps[of ai b depth] minimaxUnpruned.simps[of ai b depth])
    qed
  qed
next
  case (2 ai b d maxScore alpha beta)
  show ?case by (simp add: approx_def del: minimaxUnpruned.simps)
next
  case (3 ai b d col cols maxScore alpha beta)
  let ?child = "snd (dropToken (clone b) col (aiPlayer ai))"
  let ?s = "minimax ai ?child d alpha beta False"
  let ?v = "minimaxUnpruned ai ?child d False"
  let ?W = "maxLoopUnpruned ai b d cols NegInf"
  show ?case
  proof (intro impI)
    assume ma: "maxScore \<le> alpha" and ab: "alpha < beta"
    from "3.IH"(1) ab have child: "approx alpha beta ?v ?s" by (simp del: minimaxUnpruned.simps)
    have U: "maxLoopUnpruned ai b d (col # cols) maxScore = max (max maxScore ?v) ?W"
      using maxLoopUnpruned_rest[of ai b d cols "max maxScore ?v"] by (simp del: minimaxUnpruned.simps)
    show "approx alpha beta (maxLoopUnpruned ai b d (col # cols) maxScore)
        (maxLoop ai b d (col # cols) maxScore alpha beta)"
    proof (cases "beta \<le> max alpha ?s")
      case True
      then have "maxLoop ai b d (col # cols) maxScore alpha beta = max maxScore ?s"
        by (simp add: Let_def del: minimaxUnpruned.simps)
      with max_step_break[OF ma ab child True, of ?W] U show ?thesis by (simp del: minimaxUnpruned.simps)
    next
      case False
      let ?R = "maxLoop ai b d cols (max maxScore ?s) (max alpha ?s) beta"
      from False have R: "maxLoop ai b d (col # cols) maxScore alpha beta = ?R"
        by (simp add: Let_def del: minimaxUnpruned.simps)
      have "max maxScore ?s \<le> max alpha ?s" using ma by (auto simp: max_def simp del: minimaxUnpruned.simps)
      moreover from False have "max alpha ?s < beta" by (simp only: not_le)
      ultimately
      have "approx (max alpha ?s) beta (maxLoopUnpruned ai b d cols (max maxScore ?s)) ?R"
        using "3.IH"(2)[OF HOL.refl False] by blast
      then have ih: "approx (max alpha ?s) beta (max (max maxScore ?s) ?W) ?R"
        using maxLoopUnpruned_rest[of ai b d cols "max maxScore ?s"] by (simp del: minimaxUnpruned.simps)
      from max_step_continue[OF ma ab child False ih maxLoop_ge] U R show ?thesis by (simp del: minimaxUnpruned.simps)
    qed
  qed
next
  case (4 ai b d minScore alpha beta)
  show ?case by (simp add: approx_def del: minimaxUnpruned.simps)
next
  case (5 ai b d col cols minScore alpha beta)
  let ?child = "snd (dropToken (clone b) col (humanPlayer ai))"
  let ?s = "minimax ai ?child d alpha beta True"
  let ?v = "minimaxUnpruned ai ?child d True"
  let ?W = "minLoopUnpruned ai b d cols PosInf"
  show ?case
  proof (intro impI)
    assume bm: "beta \<le> minScore" and ab: "alpha < beta"
    from "5.IH"(1) ab have child: "approx alpha beta ?v ?s" by (simp del: minimaxUnpruned.simps)
    have U: "minLoopUnpruned ai b d (col # cols) minScore = min (min minScore ?v) ?W"
      using minLoopUnpruned_rest[of ai b d cols "min minScore ?v"] by (simp del: minimaxUnpruned.simps)
    show "approx alpha beta (minLoopUnpruned ai b d (col # cols) minScore)
        (minLoop ai b d (col # cols) minScore alpha beta)"
    proof (cases "min beta ?s \<le> alpha")
      case True
      then have "minLoop ai b d (col # cols) minScore alpha beta = min minScore ?s"
        by (simp add: Let_def del: minimaxUnpruned.simps)
      with min_step_break[OF bm ab child True, of ?W] U show ?thesis by (simp del: minimaxUnpruned.simps)
    next
      case False
      let ?R = "minLoop ai b d cols (min minScore ?s) alpha (min beta ?s)"
      from False have R: "minLoop ai b d (col # cols) minScore alpha beta = ?R"
        by (simp add: Let_def del: minimaxUnpruned.simps)
      have "min beta ?s \<le> min minScore ?s" using bm by (auto simp: min_def simp del: minimaxUnpruned.simps)
      moreover from False have "alpha < min beta ?s" by (simp only: not_le)
      ultimately
      have "approx alpha (min beta ?s) (minLoopUnpruned ai b d cols (min minScore ?s)) ?R"
        using "5.IH"(2)[OF HOL.refl False] by blast
      then have ih: "approx alpha (min beta ?s) (min (min minScore ?s) ?W) ?R"
        using minLoopUnpruned_rest[of ai b d cols "min minScore ?s"] by (simp del: minimaxUnpruned.simps)
      from min_step_continue[OF bm ab child False ih minLoop_le] U R show ?thesis by (simp del: minimaxUnpruned.simps)
    qed
  qed
qed

lemma minimax_full_window:
  "minimax ai b depth NegInf PosInf isMaximizing = minimaxUnpruned ai b depth isMaximizing"
proof -
  have "NegInf < PosInf" by (simp add: less_jsnum_def del: minimaxUnpruned.simps)
  with pruning_sound(1)[of NegInf PosInf ai b depth isMaximizing]
  have a: "approx NegInf PosInf (minimaxUnpruned ai b depth isMaximizing)
             (minimax ai b depth NegInf PosInf isMaximizing)" by blast
  show ?thesis
  proof (cases "minimax ai b depth NegInf PosInf isMaximizing")
    case NegInf
    with a have "minimaxUnpruned ai b depth isMaximizing \<le> NegInf" by (simp add: approx_def del: minimaxUnpruned.simps)
    with NegInf show ?thesis by (cases "minimaxUnpruned ai b depth isMaximizing") (simp_all del: minimaxUnpruned.simps)
  next
    case (Fin x)
    with a show ?thesis by (simp add: approx_def less_jsnum_def del: minimaxUnpruned.simps)
  next
    case PosInf
    with a have "PosInf \<le> minimaxUnpruned ai b depth isMaximizing" by (simp add: approx_def del: minimaxUnpruned.simps)
    with PosInf show ?thesis by (cases "minimaxUnpruned ai b depth isMaximizing") (simp_all del: minimaxUnpruned.simps)
  qed
qed

lemma bestMoveLoop_unpruned:
  "bestMoveLoop ai b d cols bestScore bestMove = bestMoveLoopUnpruned ai b d cols bestScore bestMove"
  by (induction cols arbitrary: bestScore bestMove) (simp_all add: minimax_full_window Let_def del: minimaxUnpruned.simps)

text \<open>Claim C1. For every board and every depth, the search with pruning and the search
  without it agree: a node searched with the window from minus infinity to plus infinity
  gets the value the unpruned search gives it, the loop of \<open>getBestMove\<close> chooses the same
  column from any list of moves, and so \<open>getBestMove\<close> returns the same column.\<close>

theorem pruning_preserves_best_move:
  "minimax ai b d NegInf PosInf isMaximizing = minimaxUnpruned ai b d isMaximizing \<and>
   bestMoveLoop ai b d cols bestScore bestMove
     = bestMoveLoopUnpruned ai b d cols bestScore bestMove \<and>
   getBestMove ai rnd1 rnd2 b = getBestMoveUnpruned ai rnd1 rnd2 b"
  by (simp add: minimax_full_window bestMoveLoop_unpruned getBestMove_def getBestMoveUnpruned_def Let_def del: minimaxUnpruned.simps)

theorem pruning_preserves_best_move_witness:
  "minimax (newAI HARD) exampleThree 5 NegInf PosInf False
     = minimaxUnpruned (newAI HARD) exampleThree 5 False \<and>
   bestMoveLoop (newAI HARD) exampleThree 5 [3, 2, 4, 1, 5, 0, 6] NegInf 0
     = bestMoveLoopUnpruned (newAI HARD) exampleThree 5 [3, 2, 4, 1, 5, 0, 6] NegInf 0 \<and>
   getBestMove (newAI HARD) 0 0 exampleThree = getBestMoveUnpruned (newAI HARD) 0 0 exampleThree"
  by (rule pruning_preserves_best_move)

section \<open>Terminal checks and degenerate move lists (claims C7 and C5)\<close>

text \<open>Claim C7. \<open>minimax\<close> checks in this order: when the scan of the whole board
  \<open>checkWinner\<close> finds the engine's side, the result is \<open>WIN + depth\<close>; otherwise, when
  it finds the opponent's side, the result is \<open>-(WIN + depth)\<close>; otherwise, when the board
  is full, the result is 0; otherwise, when \<open>depth\<close> is 0, the result is the static
  evaluation \<open>evaluateBoard\<close>. The scan is over the whole board: a side it returns is not
  \<open>EMPTY\<close> and holds four cells in a line along one of the directions (0,1), (1,0),
  (1,1), (-1,1), and when it returns \<open>null\<close> no side holds four cells in such a line
  anywhere in the grid.\<close>

theorem minimax_terminal_checks:
  "(checkWinner b = Some (aiPlayer ai) \<longrightarrow>
      minimax ai b depth alpha beta isMaximizing = Fin (WIN + int depth)) \<and>
   (checkWinner b \<noteq> Some (aiPlayer ai) \<and> checkWinner b = Some (humanPlayer ai) \<longrightarrow>
      minimax ai b depth alpha beta isMaximizing = Fin (- (WIN + int depth))) \<and>
   (checkWinner b \<noteq> Some (aiPlayer ai) \<and> checkWinner b \<noteq> Some (humanPlayer ai) \<and>
    isBoardFull b \<longrightarrow>
      minimax ai b depth alpha beta isMaximizing = Fin 0) \<and>
   (checkWinner b \<noteq> Some (aiPlayer ai) \<and> checkWinner b \<noteq> Some (humanPlayer ai) \<and>
    \<not> isBoardFull b \<and> depth = 0 \<longrightarrow>
      minimax ai b depth alpha beta isMaximizing = Fin (evaluateBoard ai b)) \<and>
   (\<forall>p. checkWinner b = Some p \<longrightarrow>
      p \<noteq> EMPTY \<and>
      (\<exists>r c dRow dCol. (dRow, dCol) \<in> set [(0, 1), (1, 0), (1, 1), (- 1, 1)] \<and>
         fourOf b p r c dRow dCol)) \<and>
   (checkWinner b = None \<longrightarrow>
      (\<forall>p r c dRow dCol. p \<noteq> EMPTY \<and> (dRow, dCol) \<in> set [(0, 1), (1, 0), (1, 1), (- 1, 1)] \<longrightarrow>
         \<not> fourOf b p r c dRow dCol))"
proof -
  have "\<forall>p. checkWinner b = Some p \<longrightarrow>
      p \<noteq> EMPTY \<and>
      (\<exists>r c dRow dCol. (dRow, dCol) \<in> set [(0, 1), (1, 0), (1, 1), (- 1, 1)] \<and>
         fourOf b p r c dRow dCol)"
    using checkWinner_Some by blast
  moreover have "checkWinner b = None \<longrightarrow>
      (\<forall>p r c dRow dCol. p \<noteq> EMPTY \<and> (dRow, dCol) \<in> set [(0, 1), (1, 0), (1, 1), (- 1, 1)] \<longrightarrow>
         \<not> fourOf b p r c dRow dCol)"
    using checkWinner_None by blast
  moreover have
    "(checkWinner b = Some (aiPlayer ai) \<longrightarrow>
        minimax ai b depth alpha beta isMaximizing = Fin (WIN + int depth)) \<and>
     (checkWinner b \<noteq> Some (aiPlayer ai) \<and> checkWinner b = Some (humanPlayer ai) \<longrightarrow>
        minimax ai b depth alpha beta isMaximizing = Fin (- (WIN + int depth))) \<and>
     (checkWinner b \<noteq> Some (aiPlayer ai) \<and> checkWinner b \<noteq> Some (humanPlayer ai) \<and>
      isBoardFull b \<longrightarrow>
        minimax ai b depth alpha beta isMaximizing = Fin 0) \<and>
     (checkWinner b \<noteq> Some (aiPlayer ai) \<and> checkWinner b \<noteq> Some (humanPlayer ai) \<and>
      \<not> isBoardFull b \<and> depth = 0 \<longrightarrow>
        minimax ai b depth alpha beta isMaximizing = Fin (evaluateBoard ai b))"
    by (auto simp: minimax.simps)
  ultimately show ?thesis by blast
qed

theorem minimax_terminal_checks_witness:
  "checkWinner (exampleFour PLAYER_2) = Some (aiPlayer (newAI HARD)) \<and>
   minimax (newAI HARD) (exampleFour PLAYER_2) 3 NegInf PosInf True = Fin 100003 \<and>
   checkWinner (exampleFour PLAYER_1) \<noteq> Some (aiPlayer (newAI HARD)) \<and>
   checkWinner (exampleFour PLAYER_1) = Some (humanPlayer (newAI HARD)) \<and>
   minimax (newAI HARD) (exampleFour PLAYER_1) 3 NegInf PosInf True = Fin (- 100003) \<and>
   checkWinner exampleDraw = None \<and> isBoardFull exampleDraw \<and>
   minimax (newAI HARD) exampleDraw 3 NegInf PosInf True = Fin 0 \<and>
   checkWinner exampleThree = None \<and> \<not> isBoardFull exampleThree \<and>
   minimax (newAI HARD) exampleThree 0 NegInf PosInf True
     = Fin (evaluateBoard (newAI HARD) exampleThree)"
proof -
  have a: "checkWinner (exampleFour PLAYER_2) = Some (aiPlayer (newAI HARD))"
    by (simp add: exampleFour_winner ai_consts board_consts)
  have h: "checkWinner (exampleFour PLAYER_1) \<noteq> Some (aiPlayer (newAI HARD)) \<and>
           checkWinner (exampleFour PLAYER_1) = Some (humanPlayer (newAI HARD))"
    by (simp add: exampleFour_winner ai_consts board_consts)
  have d: "checkWinner exampleDraw \<noteq> Some (aiPlayer (newAI HARD)) \<and>
           checkWinner exampleDraw \<noteq> Some (humanPlayer (newAI HARD)) \<and> isBoardFull exampleDraw"
    by (simp add: exampleDraw_no_winner exampleDraw_full)
  have t: "checkWinner exampleThree \<noteq> Some (aiPlayer (newAI HARD)) \<and>
           checkWinner exampleThree \<noteq> Some (humanPlayer (newAI HARD)) \<and>
           \<not> isBoardFull exampleThree \<and> (0::nat) = 0"
    by (simp add: exampleThree_no_winner exampleThree_not_full)
  from minimax_terminal_checks[of "exampleFour PLAYER_2" "newAI HARD" 3 NegInf PosInf True] a
  have "minimax (newAI HARD) (exampleFour PLAYER_2) 3 NegInf PosInf True = Fin (WIN + int 3)"
    by blast
  then have 1: "minimax (newAI HARD) (exampleFour PLAYER_2) 3 NegInf PosInf True = Fin 100003"
    by (simp add: WIN_def)
  from minimax_terminal_checks[of "exampleFour PLAYER_1" "newAI HARD" 3 NegInf PosInf True] h
  have "minimax (newAI HARD) (exampleFour PLAYER_1) 3 NegInf PosInf True = Fin (- (WIN + int 3))"
    by blast
  then have 2: "minimax (newAI HARD) (exampleFour PLAYER_1) 3 NegInf PosInf True = Fin (- 100003)"
    by (simp add: WIN_def)
  from minimax_terminal_checks[of exampleDraw "newAI HARD" 3 NegInf PosInf True] d
  have 3: "minimax (newAI HARD) exampleDraw 3 NegInf PosInf True = Fin 0"
    by blast
  from minimax_terminal_checks[of exampleThree "newAI HARD" 0 NegInf PosInf True] t
  have 4: "minimax (newAI HARD) exampleThree 0 NegInf PosInf True
     = Fin (evaluateBoard (newAI HARD) exampleThree)"
    by blast
  from a h 1 2 3 4 exampleDraw_no_winner exampleDraw_full exampleThree_no_winner
    exampleThree_not_full show ?thesis by blast
qed

text \<open>Claim C5. When every column of the grid is full, \<open>getBestMove\<close> returns \<open>-1\<close>; when
  exactly one column of the grid is not full, it returns that column, whatever the
  difficulty and the random numbers are. (The function is total: it returns in both
  cases.) On the store the call returns the same and leaves the store as it was: no board
  is cloned, so nothing is searched.\<close>

theorem getBestMove_no_or_single_move:
  "((\<forall>c. 0 \<le> c \<and> c < int COLS \<longrightarrow> isColumnFull b c) \<longrightarrow> getBestMove ai rnd1 rnd2 b = - 1) \<and>
   (\<forall>c. 0 \<le> c \<and> c < int COLS \<and> \<not> isColumnFull b c \<and>
        (\<forall>c'. 0 \<le> c' \<and> c' < int COLS \<and> c' \<noteq> c \<longrightarrow> isColumnFull b c') \<longrightarrow>
        getBestMove ai rnd1 rnd2 b = c) \<and>
   (deref h board = b \<and> (\<forall>c. 0 \<le> c \<and> c < int COLS \<longrightarrow> isColumnFull b c) \<longrightarrow>
        getBestMove_h ai rnd1 rnd2 h board = (- 1, h)) \<and>
   (\<forall>c. deref h board = b \<and> 0 \<le> c \<and> c < int COLS \<and> \<not> isColumnFull b c \<and>
        (\<forall>c'. 0 \<le> c' \<and> c' < int COLS \<and> c' \<noteq> c \<longrightarrow> isColumnFull b c') \<longrightarrow>
        getBestMove_h ai rnd1 rnd2 h board = (c, h))"
proof -
  have none: "AI_getValidMoves b = []" if "\<forall>c. 0 \<le> c \<and> c < int COLS \<longrightarrow> isColumnFull b c"
  proof -
    from that have "set (AI_getValidMoves b) = {}" unfolding set_AI_getValidMoves by blast
    then show ?thesis by simp
  qed
  have one: "AI_getValidMoves b = [c]"
    if "0 \<le> c \<and> c < int COLS \<and> \<not> isColumnFull b c \<and>
        (\<forall>c'. 0 \<le> c' \<and> c' < int COLS \<and> c' \<noteq> c \<longrightarrow> isColumnFull b c')" for c
  proof -
    from that have "set (AI_getValidMoves b) = {c}" unfolding set_AI_getValidMoves by blast
    with distinct_AI_getValidMoves show ?thesis by (rule singleton_list)
  qed
  have "getBestMove ai rnd1 rnd2 b = - 1" if "AI_getValidMoves b = []"
    using that by (simp add: getBestMove_def)
  moreover have "getBestMove ai rnd1 rnd2 b = c" if "AI_getValidMoves b = [c]" for c
    using that by (simp add: getBestMove_def)
  moreover have "getBestMove_h ai rnd1 rnd2 h board = (- 1, h)"
    if "deref h board = b" "AI_getValidMoves b = []"
    using that by (simp add: getBestMove_h_def)
  moreover have "getBestMove_h ai rnd1 rnd2 h board = (c, h)"
    if "deref h board = b" "AI_getValidMoves b = [c]" for c
    using that by (simp add: getBestMove_h_def)
  ultimately show ?thesis using none one by blast
qed

theorem getBestMove_no_or_single_move_witness:
  "isColumnFull exampleDraw 0 \<and> isColumnFull exampleDraw 3 \<and> isColumnFull exampleDraw 6 \<and>
   getBestMove (newAI HARD) 0 0 exampleDraw = - 1 \<and>
   \<not> isColumnFull exampleOneLeft 3 \<and> isColumnFull exampleOneLeft 2 \<and>
   isColumnFull exampleOneLeft 4 \<and>
   getBestMove (newAI HARD) 0 0 exampleOneLeft = 3 \<and>
   deref exampleOneLeft exampleRef = exampleOneLeft \<and>
   getBestMove_h (newAI HARD) 0 0 exampleOneLeft exampleRef = (3, exampleOneLeft) \<and>
   deref exampleDraw exampleRef = exampleDraw \<and>
   getBestMove_h (newAI HARD) 0 0 exampleDraw exampleRef = (- 1, exampleDraw)"
proof -
  have full: "isColumnFull exampleDraw c" if "c = 0 \<or> c = 1 \<or> c = 2 \<or> c = 3 \<or> c = 4 \<or> c = 5 \<or> c = 6" for c
    using that
    by (auto simp: isColumnFull_def findLowestRow_def exampleDraw_def board_consts upt_rec)
  have one: "isColumnFull exampleOneLeft c" if "c = 0 \<or> c = 1 \<or> c = 2 \<or> c = 4 \<or> c = 5 \<or> c = 6" for c
    using that
    by (auto simp: isColumnFull_def findLowestRow_def exampleOneLeft_def board_consts upt_rec)
  have open3: "\<not> isColumnFull exampleOneLeft 3"
    by (simp add: isColumnFull_def findLowestRow_def exampleOneLeft_def board_consts upt_rec)
  have d1: "deref exampleDraw exampleRef = exampleDraw"
    by (simp add: deref_def exampleDraw_def exampleRef_def)
  have d2: "deref exampleOneLeft exampleRef = exampleOneLeft"
    by (simp add: deref_def exampleOneLeft_def exampleRef_def)
  have h1: "\<forall>c. 0 \<le> c \<and> c < int COLS \<longrightarrow> isColumnFull exampleDraw c"
    using full small_int_cases by blast
  have h2: "0 \<le> (3::int) \<and> 3 < int COLS \<and> \<not> isColumnFull exampleOneLeft 3 \<and>
        (\<forall>c'. 0 \<le> c' \<and> c' < int COLS \<and> c' \<noteq> 3 \<longrightarrow> isColumnFull exampleOneLeft c')"
    using one open3 small_int_cases by (auto simp: COLS_def)
  from getBestMove_no_or_single_move[of exampleDraw "newAI HARD" 0 0 exampleDraw exampleRef] h1 d1
  have r1: "getBestMove (newAI HARD) 0 0 exampleDraw = - 1"
    and r3: "getBestMove_h (newAI HARD) 0 0 exampleDraw exampleRef = (- 1, exampleDraw)" by blast+
  from getBestMove_no_or_single_move[of exampleOneLeft "newAI HARD" 0 0 exampleOneLeft exampleRef] h2 d2
  have r2: "getBestMove (newAI HARD) 0 0 exampleOneLeft = 3"
    and r4: "getBestMove_h (newAI HARD) 0 0 exampleOneLeft exampleRef = (3, exampleOneLeft)" by blast+
  from r1 r2 r3 r4 d1 d2 full[of 0] full[of 3] full[of 6] one[of 2] one[of 4] open3
  show ?thesis by blast
qed

section \<open>Choice of the best move (claim C6)\<close>

text \<open>Claim C6. With at least two valid moves and on the search path (the difficulty is not
  Easy, or the first random number is not below 0.6), the moves are visited in the order
  3, 2, 4, 1, 5, 0, 6 restricted to the non-full columns (ascending distance from the
  centre column 3, the lower column first among two at the same distance), and
  \<open>getBestMove\<close> returns the first column in that order whose root score, the value of
  \<open>minimax\<close> for the position after the engine's token is dropped there, is maximal: no
  column scores more, and every column before it scores strictly less.\<close>

theorem getBestMove_first_maximal:
  assumes "length (AI_getValidMoves b) \<ge> 2" and "\<not> (difficulty ai = EASY \<and> rnd1 < 0.6)"
  shows "\<exists>i. let ms = filter (\<lambda>c. \<not> isColumnFull b c) [3, 2, 4, 1, 5, 0, 6];
               score = (\<lambda>c. minimax ai (snd (dropToken (clone b) c (aiPlayer ai)))
                               (DEPTH_CONFIG (difficulty ai) - 1) NegInf PosInf False)
           in orderMoves (AI_getValidMoves b) = ms \<and> i < length ms \<and>
              getBestMove ai rnd1 rnd2 b = ms ! i \<and>
              (\<forall>j < length ms. score (ms ! j) \<le> score (ms ! i)) \<and>
              (\<forall>j < i. score (ms ! j) < score (ms ! i))"
proof -
  let ?d = "DEPTH_CONFIG (difficulty ai) - 1"
  let ?om = "orderMoves (AI_getValidMoves b)"
  let ?score = "\<lambda>c. minimax ai (snd (dropToken (clone b) c (aiPlayer ai))) ?d NegInf PosInf False"
  let ?v0 = "AI_getValidMoves b ! 0"
  have ms: "filter (\<lambda>c. \<not> isColumnFull b c) [3, 2, 4, 1, 5, 0, 6] = ?om"
    by (rule orderMoves_valid[symmetric])
  have "DEPTH_CONFIG (difficulty ai) \<noteq> 0" by (cases "difficulty ai") simp_all
  with assms have g: "getBestMove ai rnd1 rnd2 b = bestMoveLoop ai b ?d ?om NegInf ?v0"
    by (auto simp: getBestMove_def Let_def)
  have "length ?om = length (AI_getValidMoves b)"
    unfolding orderMoves_def by simp
  with assms(1) have ne: "?om \<noteq> []" by auto
  then obtain c0 where c0: "c0 \<in> set ?om" by (cases ?om) auto
  from minimax_finite(1)[of ai "snd (dropToken (clone b) c0 (aiPlayer ai))" ?d NegInf PosInf False]
  have "\<not> ?score c0 \<le> NegInf" by auto
  with c0 have "\<not> (\<forall>c \<in> set ?om. ?score c \<le> NegInf)" by blast
  with bestMoveLoop_first_max[of ?om ai b ?d NegInf ?v0]
  obtain i where "i < length ?om" "bestMoveLoop ai b ?d ?om NegInf ?v0 = ?om ! i"
    "\<forall>j < length ?om. ?score (?om ! j) \<le> ?score (?om ! i)"
    "\<forall>j < i. ?score (?om ! j) < ?score (?om ! i)" by blast
  with g show ?thesis unfolding Let_def ms by (intro exI[of _ i]) simp
qed

theorem getBestMove_first_maximal_witness:
  "length (AI_getValidMoves exampleThree) \<ge> 2 \<and>
   \<not> (difficulty (newAI MEDIUM) = EASY \<and> (0::real) < 0.6) \<and>
   (\<exists>i. let ms = filter (\<lambda>c. \<not> isColumnFull exampleThree c) [3, 2, 4, 1, 5, 0, 6];
             score = (\<lambda>c. minimax (newAI MEDIUM)
                         (snd (dropToken (clone exampleThree) c (aiPlayer (newAI MEDIUM))))
                         (DEPTH_CONFIG (difficulty (newAI MEDIUM)) - 1) NegInf PosInf False)
         in orderMoves (AI_getValidMoves exampleThree) = ms \<and> i < length ms \<and>
            getBestMove (newAI MEDIUM) 0 0 exampleThree = ms ! i \<and>
            (\<forall>j < length ms. score (ms ! j) \<le> score (ms ! i)) \<and>
            (\<forall>j < i. score (ms ! j) < score (ms ! i)))"
proof -
  have h1: "length (AI_getValidMoves exampleThree) \<ge> 2"
    by (simp add: AI_getValidMoves_def isColumnFull_def findLowestRow_def exampleThree_def
        board_consts upt_rec)
  have h2: "\<not> (difficulty (newAI MEDIUM) = EASY \<and> (0::real) < 0.6)"
    by (simp add: newAI_def)
  from getBestMove_first_maximal[OF h1 h2, of 0] h1 h2 show ?thesis by blast
qed

section \<open>The board passed to the engine (claim C8)\<close>

text \<open>Claim C8. For a board object of the regular shape whose six rows are distinct arrays
  of the store: \<open>getBestMove\<close> on the store returns the column that \<open>getBestMove\<close> on the
  board's content returns; every array that existed before the call is the same after it
  (all writes of the search went to arrays it allocated by \<open>clone\<close>), so the board passed in
  has the content it had. \<open>clone\<close> returns a board of new arrays, none shared with the
  original, with the original's content, and leaves the arrays that existed; a
  \<open>dropToken\<close> on the clone leaves the original's content, and a \<open>dropToken\<close> on the
  original leaves the clone's content.\<close>

theorem getBestMove_leaves_board_unchanged:
  assumes "wf_ref h board" and "wf_board (deref h board)"
  shows "fst (getBestMove_h ai rnd1 rnd2 h board) = getBestMove ai rnd1 rnd2 (deref h board) \<and>
         take (length h) (snd (getBestMove_h ai rnd1 rnd2 h board)) = h \<and>
         deref (snd (getBestMove_h ai rnd1 rnd2 h board)) board = deref h board \<and>
         wf_ref (snd (clone_h h board)) (fst (clone_h h board)) \<and>
         set (fst (clone_h h board)) \<inter> set board = {} \<and>
         take (length h) (snd (clone_h h board)) = h \<and>
         deref (snd (clone_h h board)) (fst (clone_h h board)) = deref h board \<and>
         deref (snd (dropToken_h (snd (clone_h h board)) (fst (clone_h h board)) col p)) board
           = deref h board \<and>
         deref (snd (dropToken_h (snd (clone_h h board)) board col p)) (fst (clone_h h board))
           = deref h board"
proof -
  let ?b = "deref h board"
  let ?nb = "[length h..<length h + ROWS]"
  note old = wf_ref_old[OF assms(1)]
  have c: "clone_h h board = (?nb, h @ ?b)"
    using clone_h_spec[OF assms(1)] clone_id[OF assms(2)] by simp
  have lenb: "length ?b = ROWS" using assms(2) by (simp add: wf_board_def)
  from getBestMove_h_sound[OF assms(1), of ai rnd1 rnd2] obtain new where
    g: "fst (getBestMove_h ai rnd1 rnd2 h board) = getBestMove ai rnd1 rnd2 ?b"
       "snd (getBestMove_h ai rnd1 rnd2 h board) = h @ new" by blast
  have 1: "take (length h) (snd (getBestMove_h ai rnd1 rnd2 h board)) = h"
    unfolding g(2) by simp
  have 2: "deref (snd (getBestMove_h ai rnd1 rnd2 h board)) board = ?b"
    unfolding g(2) by (rule deref_append[OF old])
  have 3: "wf_ref (snd (clone_h h board)) (fst (clone_h h board))"
    unfolding c using wf_ref_fresh[OF lenb, of h] by simp
  have 4: "set (fst (clone_h h board)) \<inter> set board = {}"
    unfolding c using old by auto
  have 5: "take (length h) (snd (clone_h h board)) = h" unfolding c by simp
  have 6: "deref (snd (clone_h h board)) (fst (clone_h h board)) = ?b"
    unfolding c using deref_fresh[of h ?b] lenb by simp
  have 7: "deref (snd (dropToken_h (snd (clone_h h board)) (fst (clone_h h board)) col p)) board = ?b"
    unfolding simulate_move(2)[OF assms(1)] by (rule deref_append[OF old])
  have db: "deref (h @ ?b) board = ?b" by (rule deref_append[OF old])
  have 8: "deref (snd (dropToken_h (snd (clone_h h board)) board col p)) (fst (clone_h h board)) = ?b"
  proof (cases "findLowestRow ?b col = - 1")
    case True
    then have "snd (dropToken_h (h @ ?b) board col p) = h @ ?b"
      by (simp add: dropToken_h_def db)
    with 6 show ?thesis unfolding c by simp
  next
    case False
    with findLowestRow_cases[of ?b col] obtain row where
      row: "row < ROWS" "findLowestRow ?b col = int row" by blast
    let ?a = "board ! row"
    from row(1) assms(1) have "?a \<in> set board" by (simp add: wf_ref_iff)
    with old have "?a < length h" by blast
    then have notin: "?a \<notin> set ?nb" by simp
    from row have "snd (dropToken_h (h @ ?b) board col p)
        = (h @ ?b)[?a := ((h @ ?b) ! ?a)[nat col := p]]"
      by (simp add: dropToken_h_def db)
    with deref_update_other[OF notin, of "h @ ?b"] 6 show ?thesis unfolding c by simp
  qed
  from g(1) 1 2 3 4 5 6 7 8 show ?thesis by blast
qed

theorem getBestMove_leaves_board_unchanged_witness:
  "wf_ref exampleThree exampleRef \<and> wf_board (deref exampleThree exampleRef) \<and>
   deref exampleThree exampleRef = exampleThree \<and>
   fst (getBestMove_h (newAI HARD) 0 0 exampleThree exampleRef)
     = getBestMove (newAI HARD) 0 0 (deref exampleThree exampleRef) \<and>
   take (length exampleThree) (snd (getBestMove_h (newAI HARD) 0 0 exampleThree exampleRef))
     = exampleThree \<and>
   deref (snd (getBestMove_h (newAI HARD) 0 0 exampleThree exampleRef)) exampleRef
     = deref exampleThree exampleRef \<and>
   deref (snd (dropToken_h (snd (clone_h exampleThree exampleRef))
                 (fst (clone_h exampleThree exampleRef)) 3 PLAYER_2)) exampleRef
     = deref exampleThree exampleRef \<and>
   deref (snd (dropToken_h (snd (clone_h exampleThree exampleRef)) exampleRef 3 PLAYER_2))
         (fst (clone_h exampleThree exampleRef))
     = deref exampleThree exampleRef"
proof -
  have d: "deref exampleThree exampleRef = exampleThree"
    by (simp add: deref_def exampleThree_def exampleRef_def)
  have w1: "wf_ref exampleThree exampleRef"
    by (simp add: wf_ref_def exampleThree_def exampleRef_def ROWS_def)
  have w2: "wf_board (deref exampleThree exampleRef)"
    unfolding d by (rule exampleThree_wf)
  from getBestMove_leaves_board_unchanged[OF w1 w2, of "newAI HARD" 0 0 3 PLAYER_2] w1 w2 d
  show ?thesis by blast
qed

end
